theory Spec2Isabelle
  imports Complex_Main "HOL-Library.AList"
begin

section \<open>The parsed score, as the matcher queries it\<close>

text \<open>
  The matcher of \<^verbatim>\<open>src/index.js\<close> (the snapshot that declares
  \<^verbatim>\<open>staffVoicesNumbers\<close> and \<^verbatim>\<open>arrayIncludesCount\<close>) reads a parsed
  MusicXML document only through \<^verbatim>\<open>getElementsByTagName\<close>, \<^verbatim>\<open>innerHTML\<close>,
  \<^verbatim>\<open>parentElement\<close> and one attribute. An element is modelled by the collections those
  queries return, in document order.

  Modelling boundary: the text of a \<^verbatim>\<open>staff\<close>, \<^verbatim>\<open>voice\<close>, \<^verbatim>\<open>alter\<close>,
  \<^verbatim>\<open>octave\<close> or \<^verbatim>\<open>staves\<close> element and of a measure's \<^verbatim>\<open>number\<close>
  attribute is the canonical decimal form of an integer inside the range where JavaScript
  numbers are exact, so that \<^verbatim>\<open>parseInt\<close> and \<^verbatim>\<open>toString\<close> are inverse to each
  other and such a text is carried as an \<^typ>\<open>int\<close>. Every note element is the child of a
  measure element.
\<close>

datatype JsError = TypeError

record PitchElement =
  stepElems :: "string list"
  octaveElems :: "int list"
  alterElems :: "int list"

record NoteElement =
  pitchElems :: "PitchElement list"
  staffElems :: "int list"
  voiceElems :: "int list"
  restElems :: nat

record MeasureElement =
  numberAttr :: int
  noteElems :: "NoteElement list"

record PartElement =
  stavesElems :: "int list"
  measureElems :: "MeasureElement list"

type_synonym Document = "PartElement list"

text \<open>
  A DOM note element has an identity: \<^verbatim>\<open>indexOf(element)\<close> finds it among its
  siblings and \<^verbatim>\<open>parentElement\<close> leads to its measure. A reference keeps the measure,
  the position among the measure's notes, and the element found there.
\<close>

record NoteRef =
  parentElement :: MeasureElement
  siblingIndex :: nat
  element :: NoteElement

definition measureNotes :: "MeasureElement \<Rightarrow> NoteRef list" where
  "measureNotes m =
     map (\<lambda>(i, e). \<lparr>parentElement = m, siblingIndex = i, element = e\<rparr>)
       (enumerate 0 (noteElems m))"

text \<open>\<^verbatim>\<open>partElement.getElementsByTagName("note")\<close>: the notes of all measures, in order.\<close>

definition partNotes :: "PartElement \<Rightarrow> NoteRef list" where
  "partNotes p = concat (map measureNotes (measureElems p))"

section \<open>Notes, patterns and occurrences\<close>

record Pitch =
  step :: "string option"
  alter :: "int option"
  octave :: "int option"

record Note = Pitch +
  staff :: int
  voice :: int
  staffVoice :: int

type_synonym Pattern = "Pitch list"

record NoteOccurrence =
  occStaff :: int
  occMeasure :: int
  measureNoteNumber :: int
  occNote :: Note

record PatternOccurrence =
  occNotes :: "NoteOccurrence list"
  matchingCount :: nat
  occurenceNumber :: nat

record PatternOccurrences =
  exactPatternOccurrences :: "PatternOccurrence list"
  approximatePatternOccurrences :: "PatternOccurrence list"

record MatchState = PatternOccurrences +
  exactPatternOccurrenceCount :: nat
  approximatePatternOccurrenceCount :: nat
  staffCount :: int

section \<open>Helpers of the source\<close>

text \<open>\<^verbatim>\<open>html.length === 1 ? html[0] : undefined\<close>\<close>

fun getUniqueElement :: "'a list \<Rightarrow> 'a option" where
  "getUniqueElement [x] = Some x"
| "getUniqueElement _ = None"

definition getUniqueString :: "string list \<Rightarrow> string option" where
  "getUniqueString html = getUniqueElement html"

definition getUniqueInteger :: "int list \<Rightarrow> int option" where
  "getUniqueInteger html = getUniqueElement html"

text \<open>\<^verbatim>\<open>x ? x : d\<close> and \<^verbatim>\<open>x || d\<close> on a number or undefined: 0 is falsy.\<close>

fun orDefault :: "int option \<Rightarrow> int \<Rightarrow> int" where
  "orDefault None d = d"
| "orDefault (Some v) d = (if v = 0 then d else v)"

text \<open>\<^verbatim>\<open>x - 1\<close> on a number or undefined: \<^verbatim>\<open>undefined - 1\<close> is NaN, here \<open>None\<close>.\<close>

definition minusOne :: "int option \<Rightarrow> int option" where
  "minusOne x = map_option (\<lambda>v. v - 1) x"

text \<open>\<^verbatim>\<open>Array.prototype.indexOf\<close>: the first position, or -1.\<close>

fun indexOf :: "'a list \<Rightarrow> 'a \<Rightarrow> int" where
  "indexOf [] x = -1"
| "indexOf (y # ys) x =
     (if y = x then 0 else (let r = indexOf ys x in if r < 0 then -1 else r + 1))"

text \<open>
  A JavaScript array that is written at computed keys is an association list from the key
  to the value. A key is \<open>Some k\<close> for the number \<open>k\<close> and \<open>None\<close> for NaN. Only the keys
  that are array indices are visited by \<^verbatim>\<open>forEach\<close>, in ascending order; the others are
  plain properties.
\<close>

type_synonym 'a JsArray = "(int option \<times> 'a) list"

definition isArrayIndex :: "int \<Rightarrow> bool" where
  "isArrayIndex k = (0 \<le> k \<and> k < 4294967295)"

definition arrayEntries :: "'a JsArray \<Rightarrow> 'a list" where
  "arrayEntries a =
     map snd (sort_key fst
       (List.map_filter
          (\<lambda>(k, v). case k of None \<Rightarrow> None
             | Some i \<Rightarrow> if isArrayIndex i then Some (i, v) else None) a))"

subsection \<open>The voice table and \<^verbatim>\<open>getNote\<close>\<close>

text \<open>
  \<^verbatim>\<open>let staffVoicesNumbers = []\<close> is declared at the top level of the script, outside
  every function, and nothing ever resets it. It is the state every function below threads.
\<close>

type_synonym VoiceTable = "int option list JsArray"

text \<open>
  \<^verbatim>\<open>voices.sort((a, b) => a - b)\<close>: numbers ascending; \<^verbatim>\<open>sort\<close> moves undefined
  elements to the end without calling the comparator.
\<close>

definition sortVoices :: "int option list \<Rightarrow> int option list" where
  "sortVoices vs =
     map Some (sort (List.map_filter id vs)) @ filter (\<lambda>v. v = None) vs"

text \<open>\<^verbatim>\<open>staffVoicesNumbers.forEach((voices) => voices.sort(...))\<close>\<close>

definition sortAllVoices :: "VoiceTable \<Rightarrow> VoiceTable" where
  "sortAllVoices tbl =
     map (\<lambda>(k, vs). case k of None \<Rightarrow> (k, vs)
            | Some i \<Rightarrow> if isArrayIndex i then (k, sortVoices vs) else (k, vs)) tbl"

definition registerVoice :: "int option \<Rightarrow> int option \<Rightarrow> VoiceTable \<Rightarrow> VoiceTable" where
  "registerVoice key v tbl =
     (case map_of tbl key of
        Some staffVoiceNumbers \<Rightarrow>
          if length staffVoiceNumbers > 0 \<and> indexOf staffVoiceNumbers v = -1
          then AList.update key (staffVoiceNumbers @ [v]) tbl
          else tbl
      | None \<Rightarrow> AList.update key [v] tbl)"

definition getNote :: "NoteElement \<Rightarrow> VoiceTable \<Rightarrow> (JsError + Note) \<times> VoiceTable" where
  "getNote noteElement tbl =
     (let pitch = getUniqueElement (pitchElems noteElement);
          staffN = getUniqueInteger (staffElems noteElement);
          voiceN = getUniqueInteger (voiceElems noteElement);
          tbl' = sortAllVoices (registerVoice (minusOne staffN) voiceN tbl)
      in case pitch of
           None \<Rightarrow> (Inl TypeError, tbl')
         | Some p \<Rightarrow>
             (case map_of tbl' (minusOne staffN) of
                None \<Rightarrow> (Inl TypeError, tbl')
              | Some voices \<Rightarrow>
                  (Inr \<lparr>step = getUniqueString (stepElems p),
                        alter = getUniqueInteger (alterElems p),
                        octave = getUniqueInteger (octaveElems p),
                        staff = orDefault staffN 1,
                        voice = orDefault voiceN 1,
                        staffVoice = indexOf voices voiceN + 1\<rparr>, tbl')))"

subsection \<open>Comparisons\<close>

text \<open>
  \<^verbatim>\<open>note1 && note2 && note1.step === note2.step && note1.alter === note2.alter\<close>: an
  undefined argument makes the result falsy; an undefined field equals only an undefined
  field.
\<close>

fun noteIsEqual :: "('a Pitch_scheme) option \<Rightarrow> ('b Pitch_scheme) option \<Rightarrow> bool" where
  "noteIsEqual (Some note1) (Some note2) = (step note1 = step note2 \<and> alter note1 = alter note2)"
| "noteIsEqual _ _ = False"

fun staffVoiceIsEqual :: "Note option \<Rightarrow> Note option \<Rightarrow> bool" where
  "staffVoiceIsEqual (Some note1) (Some note2) =
     (staff note1 = staff note2 \<and> voice note1 = voice note2)"
| "staffVoiceIsEqual _ _ = False"

definition isNotRest :: "NoteRef \<Rightarrow> bool" where
  "isNotRest noteRef = (restElems (element noteRef) = 0)"

text \<open>
  \<^verbatim>\<open>getElementIndex(element, "note", "voice", filterValue)\<close>: the siblings that have a
  voice element whose first one reads \<open>filterValue\<close> are kept, and the element is looked up
  among them.
\<close>

definition voiceFilter :: "int \<Rightarrow> NoteElement \<Rightarrow> bool" where
  "voiceFilter filterValue sibling =
     (case voiceElems sibling of [] \<Rightarrow> False | v # _ \<Rightarrow> v = filterValue)"

definition getElementIndex :: "NoteRef \<Rightarrow> int \<Rightarrow> int" where
  "getElementIndex noteRef filterValue =
     indexOf
       (map fst (filter (\<lambda>(i, sibling). voiceFilter filterValue sibling)
          (enumerate 0 (noteElems (parentElement noteRef)))))
       (siblingIndex noteRef)"

text \<open>
  \<^verbatim>\<open>arrayIncludesCount(array, target, compareCallback)\<close>: \<^verbatim>\<open>target.every\<close> stops at
  the first element of \<open>target\<close> that no element of \<open>array\<close> matches.
\<close>

fun arrayIncludesCount :: "'a list \<Rightarrow> 'b list \<Rightarrow> ('b \<Rightarrow> 'a \<Rightarrow> bool) \<Rightarrow> nat" where
  "arrayIncludesCount array [] compareCallback = 0"
| "arrayIncludesCount array (v # target) compareCallback =
     (if list_ex (compareCallback v) array
      then Suc (arrayIncludesCount array target compareCallback)
      else 0)"

section \<open>The matcher\<close>

text \<open>
  \<^verbatim>\<open>forEach\<close> with a body that updates the local variables \<open>s\<close> and the voice table,
  and may throw: the first exception ends the loop, the table keeps what was written.
\<close>

fun forEach ::
  "('a \<Rightarrow> 's \<Rightarrow> VoiceTable \<Rightarrow> (JsError + 's) \<times> VoiceTable) \<Rightarrow> 'a list \<Rightarrow> 's \<Rightarrow> VoiceTable
     \<Rightarrow> (JsError + 's) \<times> VoiceTable" where
  "forEach f [] s tbl = (Inr s, tbl)"
| "forEach f (x # xs) s tbl =
     (case f x s tbl of
        (Inl e, tbl') \<Rightarrow> (Inl e, tbl')
      | (Inr s', tbl') \<Rightarrow> forEach f xs s' tbl')"

subsection \<open>Lanes\<close>

type_synonym StaveNotes = "NoteRef list JsArray JsArray"

text \<open>
  The body of the loop that arranges the notes of a part with more than one staff: a note
  whose staff has no entry yet opens the staff with its own voice; a note whose staff and
  voice both have an entry is appended; the source has no branch for a note whose staff has
  an entry and whose voice has none.
\<close>

definition addStaveNote :: "NoteRef \<Rightarrow> StaveNotes \<Rightarrow> StaveNotes" where
  "addStaveNote noteElement staveNotes =
     (let staffK = minusOne (getUniqueInteger (staffElems (element noteElement)));
          voiceK = minusOne (getUniqueInteger (voiceElems (element noteElement)))
      in case map_of staveNotes staffK of
           Some staffNotes \<Rightarrow>
             (case map_of staffNotes voiceK of
                Some lane \<Rightarrow>
                  AList.update staffK
                    (AList.update voiceK (lane @ [noteElement]) staffNotes) staveNotes
              | None \<Rightarrow> staveNotes)
         | None \<Rightarrow> AList.update staffK [(voiceK, [noteElement])] staveNotes)"

definition partStaffCount :: "PartElement \<Rightarrow> int" where
  "partStaffCount partElement = orDefault (getUniqueInteger (stavesElems partElement)) 1"

definition buildStaveNotes :: "PartElement \<Rightarrow> StaveNotes" where
  "buildStaveNotes partElement =
     (if partStaffCount partElement > 1
      then foldl (\<lambda>staveNotes noteElement. addStaveNote noteElement staveNotes) []
             (filter isNotRest (partNotes partElement))
      else [(Some 0, [(Some 0, partNotes partElement)])])"

subsection \<open>One alignment\<close>

definition noteOccurrence :: "int \<Rightarrow> NoteRef \<Rightarrow> Note \<Rightarrow> NoteOccurrence" where
  "noteOccurrence sc noteRef n =
     \<lparr>occStaff = sc + staff n - 1,
      occMeasure = numberAttr (parentElement noteRef),
      measureNoteNumber = getElementIndex noteRef (voice n) + 1,
      occNote = n\<rparr>"

definition prevNoteOf :: "NoteOccurrence list \<Rightarrow> Note option" where
  "prevNoteOf patternOccurrence =
     (if patternOccurrence = [] then None else Some (occNote (last patternOccurrence)))"

definition accepts :: "Note \<Rightarrow> Pitch \<Rightarrow> Note option \<Rightarrow> bool" where
  "accepts n patternNote prevNote =
     ((noteIsEqual (Some n) (Some patternNote) \<and>
       staffVoiceIsEqual (Some n) (case prevNote of None \<Rightarrow> Some n | Some q \<Rightarrow> Some q)) \<or>
      noteIsEqual (Some n) prevNote)"

text \<open>
  The \<^verbatim>\<open>for\<close> loop over \<open>patternIndex\<close>. The fifth argument is the part of the pattern
  from \<open>patternIndex\<close> on; \<open>sc\<close> is the value of \<^verbatim>\<open>staffCount\<close>. The candidate is
  \<^verbatim>\<open>staffVoiceNotes[noteIndex + patternIndex]\<close>; past the end of the lane it is
  undefined.
\<close>

fun alignLoop ::
  "int \<Rightarrow> NoteRef list \<Rightarrow> nat \<Rightarrow> nat \<Rightarrow> Pattern \<Rightarrow> NoteOccurrence list \<Rightarrow> VoiceTable
     \<Rightarrow> (JsError + NoteOccurrence list) \<times> VoiceTable" where
  "alignLoop sc staffVoiceNotes noteIndex patternIndex [] patternOccurrence tbl =
     (Inr patternOccurrence, tbl)"
| "alignLoop sc staffVoiceNotes noteIndex patternIndex (patternNote # rest) patternOccurrence tbl =
     (if length staffVoiceNotes \<le> noteIndex + patternIndex
      then alignLoop sc staffVoiceNotes noteIndex (Suc patternIndex) rest patternOccurrence tbl
      else
        (let noteRef = staffVoiceNotes ! (noteIndex + patternIndex) in
         if isNotRest noteRef
         then
           (case getNote (element noteRef) tbl of
              (Inl e, tbl') \<Rightarrow> (Inl e, tbl')
            | (Inr n, tbl') \<Rightarrow>
                if accepts n patternNote (prevNoteOf patternOccurrence)
                then alignLoop sc staffVoiceNotes noteIndex (Suc patternIndex) rest
                       (patternOccurrence @ [noteOccurrence sc noteRef n]) tbl'
                else alignLoop sc staffVoiceNotes noteIndex (Suc patternIndex) rest
                       patternOccurrence tbl')
         else alignLoop sc staffVoiceNotes noteIndex (Suc patternIndex) rest
                patternOccurrence tbl))"

subsection \<open>Classification\<close>

definition countMatching :: "NoteOccurrence list \<Rightarrow> Pattern \<Rightarrow> nat" where
  "countMatching patternOccurrence pattern =
     arrayIncludesCount (map occNote patternOccurrence) pattern
       (\<lambda>v s. noteIsEqual (Some v) (Some s))"

text \<open>
  \<^verbatim>\<open>matchingCount / pattern.length > 0.6\<close> is a comparison of doubles. The quotient of
  two integers below \<open>2 ^ 32\<close> (the bound of an array's length) that is not \<open>3 / 5\<close> differs
  from it by at least \<open>1 / (5 * 2 ^ 32)\<close>, far more than the spacing \<open>2 ^ - 53\<close> of the
  doubles there, and \<open>3 / 5\<close> rounds to the literal itself; so the test is the exact
  \<open>5 * matchingCount > 3 * pattern.length\<close>.
\<close>

definition aboveThreshold :: "nat \<Rightarrow> nat \<Rightarrow> bool" where
  "aboveThreshold m k = (3 * k < 5 * m)"

definition classify :: "Pattern \<Rightarrow> NoteOccurrence list \<Rightarrow> MatchState \<Rightarrow> MatchState" where
  "classify pattern patternOccurrence st =
     (let m = countMatching patternOccurrence pattern in
      if int (length pattern) - int m = 0
      then st\<lparr>exactPatternOccurrences :=
                 exactPatternOccurrences st @
                   [\<lparr>occNotes = patternOccurrence, matchingCount = m,
                     occurenceNumber = Suc (exactPatternOccurrenceCount st)\<rparr>],
               exactPatternOccurrenceCount := Suc (exactPatternOccurrenceCount st)\<rparr>
      else if aboveThreshold m (length pattern)
      then st\<lparr>approximatePatternOccurrences :=
                 approximatePatternOccurrences st @
                   [\<lparr>occNotes = patternOccurrence, matchingCount = m,
                     occurenceNumber = Suc (approximatePatternOccurrenceCount st)\<rparr>],
               approximatePatternOccurrenceCount := Suc (approximatePatternOccurrenceCount st)\<rparr>
      else st)"

text \<open>The body of the loop over the window starts \<open>noteIndex\<close> of a lane.\<close>

definition windowBody ::
  "Pattern \<Rightarrow> NoteRef list \<Rightarrow> nat \<Rightarrow> MatchState \<Rightarrow> VoiceTable \<Rightarrow> (JsError + MatchState) \<times> VoiceTable"
  where
  "windowBody pattern staffVoiceNotes noteIndex st tbl =
     (case alignLoop (staffCount st) staffVoiceNotes noteIndex 0 pattern [] tbl of
        (Inl e, tbl') \<Rightarrow> (Inl e, tbl')
      | (Inr patternOccurrence, tbl') \<Rightarrow> (Inr (classify pattern patternOccurrence st), tbl'))"

text \<open>
  \<^verbatim>\<open>[...staffVoiceNotes].filter(isNotRest).forEach((_, noteIndex) => ...)\<close>: the window
  starts are the indices of the filtered copy, while the alignment reads the lane itself.
\<close>

definition windowStarts :: "NoteRef list \<Rightarrow> nat list" where
  "windowStarts staffVoiceNotes = [0 ..< length (filter isNotRest staffVoiceNotes)]"

definition laneBody ::
  "Pattern \<Rightarrow> NoteRef list \<Rightarrow> MatchState \<Rightarrow> VoiceTable \<Rightarrow> (JsError + MatchState) \<times> VoiceTable"
  where
  "laneBody pattern staffVoiceNotes st tbl =
     forEach (windowBody pattern staffVoiceNotes) (windowStarts staffVoiceNotes) st tbl"

definition staffBody ::
  "Pattern \<Rightarrow> NoteRef list JsArray \<Rightarrow> MatchState \<Rightarrow> VoiceTable
     \<Rightarrow> (JsError + MatchState) \<times> VoiceTable" where
  "staffBody pattern staffVoices st tbl =
     forEach (laneBody pattern) (arrayEntries staffVoices) st tbl"

text \<open>The body of \<^verbatim>\<open>[...parts].forEach\<close>.\<close>

definition partBody ::
  "Pattern \<Rightarrow> PartElement \<Rightarrow> MatchState \<Rightarrow> VoiceTable \<Rightarrow> (JsError + MatchState) \<times> VoiceTable"
  where
  "partBody pattern partElement st tbl =
     forEach (staffBody pattern) (arrayEntries (buildStaveNotes partElement))
       (st\<lparr>staffCount := staffCount st + 1\<rparr>) tbl"

definition initialState :: MatchState where
  "initialState =
     \<lparr>exactPatternOccurrences = [], approximatePatternOccurrences = [],
      exactPatternOccurrenceCount = 0, approximatePatternOccurrenceCount = 0,
      staffCount = 0\<rparr>"

definition scanParts ::
  "Pattern \<Rightarrow> PartElement list \<Rightarrow> VoiceTable \<Rightarrow> (JsError + MatchState) \<times> VoiceTable" where
  "scanParts pattern parts tbl = forEach (partBody pattern) parts initialState tbl"

text \<open>
  \<^verbatim>\<open>findPattern(xml, pattern)\<close>, from the voice table it finds to the one it leaves: the
  value returned, or the exception thrown.
\<close>

definition findPattern ::
  "Document \<Rightarrow> Pattern \<Rightarrow> VoiceTable \<Rightarrow> (JsError + PatternOccurrences) \<times> VoiceTable" where
  "findPattern xml pattern tbl =
     (case scanParts pattern xml tbl of
        (Inl e, tbl') \<Rightarrow> (Inl e, tbl')
      | (Inr st, tbl') \<Rightarrow>
          (Inr \<lparr>exactPatternOccurrences = exactPatternOccurrences st,
                approximatePatternOccurrences = approximatePatternOccurrences st\<rparr>, tbl'))"

section \<open>Vocabulary of the statements\<close>

text \<open>The lanes of a part in the order in which the two nested \<^verbatim>\<open>forEach\<close> visit them.\<close>

definition lanesOf :: "PartElement \<Rightarrow> NoteRef list list" where
  "lanesOf partElement = concat (map arrayEntries (arrayEntries (buildStaveNotes partElement)))"

text \<open>The two fields that \<^const>\<open>noteIsEqual\<close> compares.\<close>

definition pitchKey :: "'a Pitch_scheme \<Rightarrow> string option \<times> int option" where
  "pitchKey p = (step p, alter p)"

text \<open>
  A note occurrence that an alignment over a lane can push: built from a note of the lane
  that is no rest and from what \<^const>\<open>getNote\<close> returns for it under some voice table.
\<close>

definition fromLane :: "int \<Rightarrow> NoteRef list \<Rightarrow> NoteOccurrence \<Rightarrow> bool" where
  "fromLane sc lane occ =
     (\<exists>noteRef n t t'. noteRef \<in> set lane \<and> isNotRest noteRef \<and>
        getNote (element noteRef) t = (Inr n, t') \<and> occ = noteOccurrence sc noteRef n)"

text \<open>
  A pattern occurrence that a window over one of the lanes, scanned while
  \<^verbatim>\<open>staffCount\<close> is \<open>sc\<close>, produces: its notes are what the alignment returns and its
  count is what \<^const>\<open>countMatching\<close> gives for them.
\<close>

definition windowIn :: "Pattern \<Rightarrow> int \<Rightarrow> NoteRef list list \<Rightarrow> PatternOccurrence \<Rightarrow> bool" where
  "windowIn pattern sc lanes occ =
     (\<exists>lane i t t'. lane \<in> set lanes \<and>
        alignLoop sc lane i 0 pattern [] t = (Inr (occNotes occ), t') \<and>
        matchingCount occ = countMatching (occNotes occ) pattern)"

definition windowOfDoc :: "Document \<Rightarrow> Pattern \<Rightarrow> PatternOccurrence \<Rightarrow> bool" where
  "windowOfDoc xml pattern occ =
     (\<exists>partElement sc. partElement \<in> set xml \<and> windowIn pattern sc (lanesOf partElement) occ)"

text \<open>What a stretch of the scan adds to the two result lists.\<close>

definition emittedBy ::
  "Pattern \<Rightarrow> int \<Rightarrow> NoteRef list list \<Rightarrow> MatchState \<Rightarrow> MatchState \<Rightarrow> bool" where
  "emittedBy pattern sc lanes st st' =
     (staffCount st' = staffCount st \<and>
      (\<exists>newE newA.
         exactPatternOccurrences st' = exactPatternOccurrences st @ newE \<and>
         approximatePatternOccurrences st' = approximatePatternOccurrences st @ newA \<and>
         list_all (\<lambda>occ. windowIn pattern sc lanes occ \<and> matchingCount occ = length pattern) newE \<and>
         list_all (\<lambda>occ. windowIn pattern sc lanes occ \<and> matchingCount occ < length pattern \<and>
                     aboveThreshold (matchingCount occ) (length pattern)) newA))"

text \<open>All note references held anywhere in the lanes of a part, visited or not.\<close>

definition allRefs :: "StaveNotes \<Rightarrow> NoteRef set" where
  "allRefs staveNotes = (\<Union>staffVoices \<in> snd ` set staveNotes. \<Union>lane \<in> snd ` set staffVoices. set lane)"

text \<open>
  A pattern entry is covered by an occurrence when some note of the occurrence is pitch-equal
  to it: the test \<^verbatim>\<open>array.some((s) => compareCallback(v, s))\<close> of
  \<^verbatim>\<open>arrayIncludesCount\<close>.
\<close>

definition coveredBy :: "NoteOccurrence list \<Rightarrow> Pitch \<Rightarrow> bool" where
  "coveredBy patternOccurrence p =
     list_ex (\<lambda>ocn. noteIsEqual (Some p) (Some (occNote ocn))) patternOccurrence"

text \<open>
  What a stretch of the scan adds when the pattern is empty: \<open>n\<close> exact occurrences without
  notes, and no approximate one.
\<close>

definition emptyEmits :: "nat \<Rightarrow> MatchState \<Rightarrow> MatchState \<Rightarrow> bool" where
  "emptyEmits n st st' =
     (\<exists>new. exactPatternOccurrences st' = exactPatternOccurrences st @ new \<and>
        length new = n \<and>
        list_all (\<lambda>occ. occNotes occ = [] \<and> matchingCount occ = 0) new \<and>
        approximatePatternOccurrences st' = approximatePatternOccurrences st)"

text \<open>The number of window starts of a score: the non-rest notes of the lanes visited.\<close>

definition windowCount :: "Document \<Rightarrow> nat" where
  "windowCount xml =
     sum_list (map (\<lambda>partElement.
        sum_list (map (\<lambda>lane. length (windowStarts lane)) (lanesOf partElement))) xml)"




section \<open>The count of the specification\<close>

text \<open>
  The specification describes the count as the number of accumulated notes whose pitch appears,
  without reuse, among the pitches the pattern requires: a greedy one-to-one coverage of the
  accumulated notes against the pattern as a multiset. Each accumulated note, in order, takes
  the first entry still available that is pitch-equal to it. This function is written from
  those words, to be compared with \<^const>\<open>countMatching\<close>, which is written from the source.
\<close>

fun removeFirstEqual :: "Note \<Rightarrow> Pattern \<Rightarrow> Pattern" where
  "removeFirstEqual n [] = []"
| "removeFirstEqual n (p # ps) =
     (if noteIsEqual (Some n) (Some p) then ps else p # removeFirstEqual n ps)"

fun specMatchedCount :: "Note list \<Rightarrow> Pattern \<Rightarrow> nat" where
  "specMatchedCount [] required = 0"
| "specMatchedCount (n # ns) required =
     (if list_ex (\<lambda>p. noteIsEqual (Some n) (Some p)) required
      then Suc (specMatchedCount ns (removeFirstEqual n required))
      else specMatchedCount ns required)"

section \<open>The position of the specification\<close>

text \<open>
  The specification gives every note a voice index, 1 when the source omits it, and defines
  the position in the measure as the 0-based rank of the note among all same-voice
  note-or-rest siblings of its measure, in document order. These two functions are written
  from those words, to be compared with \<^const>\<open>getElementIndex\<close> and with the field
  \<^const>\<open>measureNoteNumber\<close>, which are written from the source.
\<close>

definition specVoiceIndex :: "NoteElement \<Rightarrow> int" where
  "specVoiceIndex e = orDefault (getUniqueInteger (voiceElems e)) 1"

definition specPositionInMeasure :: "NoteRef \<Rightarrow> nat" where
  "specPositionInMeasure noteRef =
     length (filter (\<lambda>sibling. specVoiceIndex sibling = specVoiceIndex (element noteRef))
       (take (siblingIndex noteRef) (noteElems (parentElement noteRef))))"

section \<open>Example scores\<close>

definition pitchedNote :: "string \<Rightarrow> int list \<Rightarrow> int list \<Rightarrow> int list \<Rightarrow> NoteElement" where
  "pitchedNote s alters staves voices =
     \<lparr>pitchElems = [\<lparr>stepElems = [s], octaveElems = [4], alterElems = alters\<rparr>],
      staffElems = staves, voiceElems = voices, restElems = 0\<rparr>"

definition restNote :: "int list \<Rightarrow> NoteElement" where
  "restNote voices = \<lparr>pitchElems = [], staffElems = [], voiceElems = voices, restElems = 1\<rparr>"

definition singleMeasurePart :: "int list \<Rightarrow> NoteElement list \<Rightarrow> PartElement" where
  "singleMeasurePart staves ns =
     \<lparr>stavesElems = staves, measureElems = [\<lparr>numberAttr = 1, noteElems = ns\<rparr>]\<rparr>"

definition patternNote :: "string \<Rightarrow> int option \<Rightarrow> Pitch" where
  "patternNote s a = \<lparr>step = Some s, alter = a, octave = None\<rparr>"

definition repeatedScore :: Document where
  "repeatedScore = [singleMeasurePart [] [pitchedNote ''A'' [] [] [1]]]"

definition repeatedPattern :: Pattern where
  "repeatedPattern = [patternNote ''A'' None, patternNote ''A'' None]"

definition nearScore :: Document where
  "nearScore = [singleMeasurePart []
     [pitchedNote ''B'' [-1] [] [1], pitchedNote ''A'' [] [] [1],
      pitchedNote ''C'' [] [] [1], pitchedNote ''E'' [] [] [1]]]"

definition nearPattern :: Pattern where
  "nearPattern = [patternNote ''B'' (Some (-1)), patternNote ''A'' None,
                  patternNote ''C'' None, patternNote ''B'' None]"

definition plainScore :: Document where
  "plainScore = [singleMeasurePart []
     [pitchedNote ''B'' [-1] [] [1], pitchedNote ''A'' [] [] [1], pitchedNote ''C'' [] [] [1]]]"

definition plainPattern :: Pattern where
  "plainPattern = [patternNote ''B'' (Some (-1)), patternNote ''A'' None, patternNote ''C'' None]"

text \<open>
  A score whose first part has no note and whose second part holds a note with a pitch
  element that has no step, followed by an A.
\<close>

definition malformedScore :: Document where
  "malformedScore =
     [\<lparr>stavesElems = [], measureElems = []\<rparr>,
      singleMeasurePart []
        [\<lparr>pitchElems = [\<lparr>stepElems = [], octaveElems = [4], alterElems = []\<rparr>],
          staffElems = [], voiceElems = [1], restElems = 0\<rparr>,
         pitchedNote ''A'' [] [] [1]]]"

text \<open>A rest and a note of voice 2 before an A of voice 1, and a last note after it.\<close>

definition rankScore :: Document where
  "rankScore = [singleMeasurePart []
     [restNote [1], pitchedNote ''E'' [] [] [2], pitchedNote ''A'' [] [] [1],
      pitchedNote ''F'' [] [] [1]]]"


text \<open>
  Two rests, then A and B: once as a part without staff declaration, once as a part that
  declares two staves.
\<close>

definition restScore :: Document where
  "restScore = [singleMeasurePart []
     [restNote [1], restNote [1], pitchedNote ''A'' [] [] [1], pitchedNote ''B'' [] [] [1]]]"

definition twoStaffRestScore :: Document where
  "twoStaffRestScore = [singleMeasurePart [2]
     [restNote [1], restNote [1], pitchedNote ''A'' [] [1] [1], pitchedNote ''B'' [] [1] [1]]]"

definition abPattern :: Pattern where
  "abPattern = [patternNote ''A'' None, patternNote ''B'' None]"

text \<open>A part that declares two staves, with two notes on staff 1: voice 1, then voice 2.\<close>

definition droppedScore :: Document where
  "droppedScore = [singleMeasurePart [2]
     [pitchedNote ''A'' [] [1] [1], pitchedNote ''A'' [] [1] [2]]]"

text \<open>A part without staff declaration, with two notes on staff 1: voice 2, then voice 1.\<close>

definition tableScore :: Document where
  "tableScore = [singleMeasurePart []
     [pitchedNote ''A'' [] [1] [2], pitchedNote ''A'' [] [1] [1]]]"

text \<open>Projections of a result, to display it.\<close>

definition staffVoicesOf :: "PatternOccurrences \<Rightarrow> int list list" where
  "staffVoicesOf res =
     map (\<lambda>occ. map (\<lambda>ocn. staffVoice (occNote ocn)) (occNotes occ)) (exactPatternOccurrences res)"

definition stepsOf :: "PatternOccurrences \<Rightarrow> string option list list" where
  "stepsOf res =
     map (\<lambda>occ. map (\<lambda>ocn. step (occNote ocn)) (occNotes occ)) (exactPatternOccurrences res)"

section \<open>Properties of the loops\<close>

lemma forEach_invariant:
  assumes "forEach f xs s t = (Inr s', t')"
    and "P s"
    and "\<And>x s t s' t'. x \<in> set xs \<Longrightarrow> P s \<Longrightarrow> f x s t = (Inr s', t') \<Longrightarrow> P s'"
  shows "P s'"
  using assms
proof (induction xs arbitrary: s t)
  case Nil
  then show ?case by simp
next
  case (Cons x xs)
  from Cons.prems(1) obtain s1 t1 where
    step: "f x s t = (Inr s1, t1)" and rest: "forEach f xs s1 t1 = (Inr s', t')"
    by (auto split: prod.splits sum.splits)
  have "P s1" using Cons.prems(3)[of x s t s1 t1] Cons.prems(2) step by simp
  show ?case
  proof (rule Cons.IH[OF rest \<open>P s1\<close>])
    fix y u v u' v'
    assume "y \<in> set xs" "P u" "f y u v = (Inr u', v')"
    then show "P u'" using Cons.prems(3)[of y u v u' v'] by simp
  qed
qed

lemma forEach_succeeds:
  assumes "\<And>x s t. x \<in> set xs \<Longrightarrow> \<exists>s' t'. f x s t = (Inr s', t')"
  shows "\<exists>s' t'. forEach f xs s t = (Inr s', t')"
  using assms
proof (induction xs arbitrary: s t)
  case Nil
  then show ?case by simp
next
  case (Cons x xs)
  obtain s1 t1 where step: "f x s t = (Inr s1, t1)"
    using Cons.prems[of x s t] by auto
  have "\<exists>s' t'. forEach f xs s1 t1 = (Inr s', t')"
    using Cons.IH Cons.prems by simp
  then show ?case using step by simp
qed

lemma alignLoop_skip:
  "length lane \<le> i + j \<or> \<not> isNotRest (lane ! (i + j)) \<Longrightarrow>
   alignLoop sc lane i j (p # ps) acc t = alignLoop sc lane i (Suc j) ps acc t"
  by (auto simp: Let_def)

lemma alignLoop_read:
  "i + j < length lane \<Longrightarrow> isNotRest (lane ! (i + j)) \<Longrightarrow>
   alignLoop sc lane i j (p # ps) acc t =
     (case getNote (element (lane ! (i + j))) t of
        (Inl e, t') \<Rightarrow> (Inl e, t')
      | (Inr n, t') \<Rightarrow>
          if accepts n p (prevNoteOf acc)
          then alignLoop sc lane i (Suc j) ps (acc @ [noteOccurrence sc (lane ! (i + j)) n]) t'
          else alignLoop sc lane i (Suc j) ps acc t')"
  by (simp add: Let_def)

lemma alignLoop_appends:
  assumes "alignLoop sc lane i j ps acc t = (Inr acc', t')"
  shows "\<exists>new. acc' = acc @ new \<and> length new \<le> length ps \<and> list_all (fromLane sc lane) new"
  using assms
proof (induction ps arbitrary: j acc t)
  case Nil
  then show ?case by simp
next
  case (Cons p ps)
  show ?case
  proof (cases "length lane \<le> i + j \<or> \<not> isNotRest (lane ! (i + j))")
    case True
    then have "alignLoop sc lane i (Suc j) ps acc t = (Inr acc', t')"
      using Cons.prems by (simp only: alignLoop_skip)
    from Cons.IH[OF this] show ?thesis by auto
  next
    case False
    then have inr: "i + j < length lane" and nr: "isNotRest (lane ! (i + j))" by auto
    note unf = alignLoop_read[OF inr nr]
    from Cons.prems obtain n t1 where
      gn: "getNote (element (lane ! (i + j))) t = (Inr n, t1)"
      unfolding unf by (auto split: prod.splits sum.splits)
    show ?thesis
    proof (cases "accepts n p (prevNoteOf acc)")
      case True
      then have "alignLoop sc lane i (Suc j) ps
                   (acc @ [noteOccurrence sc (lane ! (i + j)) n]) t1 = (Inr acc', t')"
        using Cons.prems gn unfolding unf by simp
      from Cons.IH[OF this] obtain new where
        new: "acc' = (acc @ [noteOccurrence sc (lane ! (i + j)) n]) @ new"
          "length new \<le> length ps" "list_all (fromLane sc lane) new"
        by auto
      have "fromLane sc lane (noteOccurrence sc (lane ! (i + j)) n)"
        unfolding fromLane_def using inr nr gn by (metis nth_mem)
      then show ?thesis using new
        by (intro exI[of _ "noteOccurrence sc (lane ! (i + j)) n # new"]) simp
    next
      case False
      then have "alignLoop sc lane i (Suc j) ps acc t1 = (Inr acc', t')"
        using Cons.prems gn unfolding unf by simp
      from Cons.IH[OF this] show ?thesis by auto
    qed
  qed
qed

lemma arrayIncludesCount_le: "arrayIncludesCount array target cmp \<le> length target"
  by (induction target) auto

lemma countMatching_le: "countMatching acc pattern \<le> length pattern"
  by (simp add: countMatching_def arrayIncludesCount_le)

lemma emittedBy_refl: "emittedBy pattern sc lanes st st"
  by (simp add: emittedBy_def)

lemma emittedBy_trans:
  assumes "emittedBy pattern sc lanes st st1" and "emittedBy pattern sc lanes st1 st2"
  shows "emittedBy pattern sc lanes st st2"
proof -
  from assms(1) obtain e1 a1 where 1:
    "staffCount st1 = staffCount st"
    "exactPatternOccurrences st1 = exactPatternOccurrences st @ e1"
    "approximatePatternOccurrences st1 = approximatePatternOccurrences st @ a1"
    "list_all (\<lambda>occ. windowIn pattern sc lanes occ \<and> matchingCount occ = length pattern) e1"
    "list_all (\<lambda>occ. windowIn pattern sc lanes occ \<and> matchingCount occ < length pattern \<and>
                     aboveThreshold (matchingCount occ) (length pattern)) a1"
    unfolding emittedBy_def by blast
  from assms(2) obtain e2 a2 where 2:
    "staffCount st2 = staffCount st1"
    "exactPatternOccurrences st2 = exactPatternOccurrences st1 @ e2"
    "approximatePatternOccurrences st2 = approximatePatternOccurrences st1 @ a2"
    "list_all (\<lambda>occ. windowIn pattern sc lanes occ \<and> matchingCount occ = length pattern) e2"
    "list_all (\<lambda>occ. windowIn pattern sc lanes occ \<and> matchingCount occ < length pattern \<and>
                     aboveThreshold (matchingCount occ) (length pattern)) a2"
    unfolding emittedBy_def by blast
  show ?thesis
    unfolding emittedBy_def
    apply (rule conjI)
     apply (simp add: 1 2)
    apply (rule exI[of _ "e1 @ e2"], rule exI[of _ "a1 @ a2"])
    apply (simp add: 1 2)
    done
qed

lemma windowIn_mono: "set lanes \<subseteq> set lanes' \<Longrightarrow> windowIn pattern sc lanes occ \<Longrightarrow> windowIn pattern sc lanes' occ"
  unfolding windowIn_def by blast

lemma emittedBy_mono:
  assumes "set lanes \<subseteq> set lanes'" and "emittedBy pattern sc lanes st st'"
  shows "emittedBy pattern sc lanes' st st'"
proof -
  from assms(2) obtain e1 a1 where 1:
    "staffCount st' = staffCount st"
    "exactPatternOccurrences st' = exactPatternOccurrences st @ e1"
    "approximatePatternOccurrences st' = approximatePatternOccurrences st @ a1"
    "list_all (\<lambda>occ. windowIn pattern sc lanes occ \<and> matchingCount occ = length pattern) e1"
    "list_all (\<lambda>occ. windowIn pattern sc lanes occ \<and> matchingCount occ < length pattern \<and>
                     aboveThreshold (matchingCount occ) (length pattern)) a1"
    unfolding emittedBy_def by blast
  have e: "list_all (\<lambda>occ. windowIn pattern sc lanes' occ \<and> matchingCount occ = length pattern) e1"
    using 1(4) windowIn_mono[OF assms(1)] by (auto simp: list_all_iff)
  have a: "list_all (\<lambda>occ. windowIn pattern sc lanes' occ \<and> matchingCount occ < length pattern \<and>
                     aboveThreshold (matchingCount occ) (length pattern)) a1"
    using 1(5) windowIn_mono[OF assms(1)] by (auto simp: list_all_iff)
  show ?thesis unfolding emittedBy_def using 1(1,2,3) e a by blast
qed

lemma classify_emits:
  assumes "alignLoop (staffCount st) lane i 0 pattern [] t = (Inr acc, t')"
  shows "emittedBy pattern (staffCount st) [lane] st (classify pattern acc st)"
proof -
  let ?m = "countMatching acc pattern"
  have w: "\<And>n. windowIn pattern (staffCount st) [lane]
             \<lparr>occNotes = acc, matchingCount = ?m, occurenceNumber = n\<rparr>"
    unfolding windowIn_def using assms by auto
  have le: "?m \<le> length pattern" by (rule countMatching_le)
  show ?thesis
  proof (cases "?m = length pattern")
    case True
    then show ?thesis
      unfolding emittedBy_def classify_def Let_def using w by simp
  next
    case False
    then have lt: "?m < length pattern" using le by simp
    show ?thesis
    proof (cases "aboveThreshold ?m (length pattern)")
      case True
      then show ?thesis
        unfolding emittedBy_def classify_def Let_def using w lt False by simp
    next
      case False
      then show ?thesis
        unfolding emittedBy_def classify_def Let_def using lt by simp
    qed
  qed
qed

lemma windowBody_emits:
  assumes "windowBody pattern lane i st t = (Inr st', t')"
  shows "emittedBy pattern (staffCount st) [lane] st st'"
proof -
  from assms obtain acc where
    a: "alignLoop (staffCount st) lane i 0 pattern [] t = (Inr acc, t')"
    and s: "st' = classify pattern acc st"
    unfolding windowBody_def by (auto split: prod.splits sum.splits)
  show ?thesis unfolding s by (rule classify_emits[OF a])
qed

lemma laneBody_emits:
  assumes "laneBody pattern lane st t = (Inr st', t')"
  shows "emittedBy pattern (staffCount st) [lane] st st'"
proof -
  have "forEach (windowBody pattern lane) (windowStarts lane) st t = (Inr st', t')"
    using assms by (simp add: laneBody_def)
  then show ?thesis
  proof (rule forEach_invariant[where P = "\<lambda>s. emittedBy pattern (staffCount st) [lane] st s"])
    show "emittedBy pattern (staffCount st) [lane] st st" by (rule emittedBy_refl)
  next
    fix x s u s' u'
    assume p: "emittedBy pattern (staffCount st) [lane] st s"
      and b: "windowBody pattern lane x s u = (Inr s', u')"
    have sc: "staffCount s = staffCount st" using p by (simp add: emittedBy_def)
    from windowBody_emits[OF b] have "emittedBy pattern (staffCount st) [lane] s s'"
      by (simp add: sc)
    with p show "emittedBy pattern (staffCount st) [lane] st s'" by (rule emittedBy_trans)
  qed
qed

lemma lanes_emits:
  assumes "forEach (laneBody pattern) lanes st t = (Inr st', t')"
  shows "emittedBy pattern (staffCount st) lanes st st'"
  using assms
proof (rule forEach_invariant[where P = "\<lambda>s. emittedBy pattern (staffCount st) lanes st s"])
  show "emittedBy pattern (staffCount st) lanes st st" by (rule emittedBy_refl)
next
  fix x s u s' u'
  assume x: "x \<in> set lanes" and p: "emittedBy pattern (staffCount st) lanes st s"
    and b: "laneBody pattern x s u = (Inr s', u')"
  have sc: "staffCount s = staffCount st" using p by (simp add: emittedBy_def)
  from laneBody_emits[OF b] have "emittedBy pattern (staffCount st) [x] s s'"
    by (simp add: sc)
  then have "emittedBy pattern (staffCount st) lanes s s'"
    by (rule emittedBy_mono[rotated]) (use x in simp)
  with p show "emittedBy pattern (staffCount st) lanes st s'" by (rule emittedBy_trans)
qed

lemma staves_emits:
  assumes "forEach (staffBody pattern) staves st t = (Inr st', t')"
  shows "emittedBy pattern (staffCount st) (concat (map arrayEntries staves)) st st'"
  using assms
proof (rule forEach_invariant[where
      P = "\<lambda>s. emittedBy pattern (staffCount st) (concat (map arrayEntries staves)) st s"])
  show "emittedBy pattern (staffCount st) (concat (map arrayEntries staves)) st st"
    by (rule emittedBy_refl)
next
  fix x s u s' u'
  assume x: "x \<in> set staves"
    and p: "emittedBy pattern (staffCount st) (concat (map arrayEntries staves)) st s"
    and b: "staffBody pattern x s u = (Inr s', u')"
  have sc: "staffCount s = staffCount st" using p by (simp add: emittedBy_def)
  from b have "forEach (laneBody pattern) (arrayEntries x) s u = (Inr s', u')"
    by (simp add: staffBody_def)
  from lanes_emits[OF this] have "emittedBy pattern (staffCount st) (arrayEntries x) s s'"
    by (simp add: sc)
  then have "emittedBy pattern (staffCount st) (concat (map arrayEntries staves)) s s'"
    by (rule emittedBy_mono[rotated]) (use x in auto)
  with p show "emittedBy pattern (staffCount st) (concat (map arrayEntries staves)) st s'"
    by (rule emittedBy_trans)
qed

lemma partBody_emits:
  assumes "partBody pattern partElement st t = (Inr st', t')"
  shows "staffCount st' = staffCount st + 1"
    and "\<exists>newE newA.
         exactPatternOccurrences st' = exactPatternOccurrences st @ newE \<and>
         approximatePatternOccurrences st' = approximatePatternOccurrences st @ newA \<and>
         list_all (\<lambda>occ. windowIn pattern (staffCount st + 1) (lanesOf partElement) occ \<and>
                     matchingCount occ = length pattern) newE \<and>
         list_all (\<lambda>occ. windowIn pattern (staffCount st + 1) (lanesOf partElement) occ \<and>
                     matchingCount occ < length pattern \<and>
                     aboveThreshold (matchingCount occ) (length pattern)) newA"
proof -
  let ?st1 = "st\<lparr>staffCount := staffCount st + 1\<rparr>"
  have "forEach (staffBody pattern) (arrayEntries (buildStaveNotes partElement)) ?st1 t = (Inr st', t')"
    using assms by (simp add: partBody_def)
  from staves_emits[OF this]
  have e: "emittedBy pattern (staffCount st + 1) (lanesOf partElement) ?st1 st'"
    by (simp add: lanesOf_def)
  show "staffCount st' = staffCount st + 1" using e by (simp add: emittedBy_def)
  show "\<exists>newE newA.
         exactPatternOccurrences st' = exactPatternOccurrences st @ newE \<and>
         approximatePatternOccurrences st' = approximatePatternOccurrences st @ newA \<and>
         list_all (\<lambda>occ. windowIn pattern (staffCount st + 1) (lanesOf partElement) occ \<and>
                     matchingCount occ = length pattern) newE \<and>
         list_all (\<lambda>occ. windowIn pattern (staffCount st + 1) (lanesOf partElement) occ \<and>
                     matchingCount occ < length pattern \<and>
                     aboveThreshold (matchingCount occ) (length pattern)) newA"
    using e unfolding emittedBy_def by simp
qed

lemma noteIsEqual_iff: "noteIsEqual (Some a) (Some b) \<longleftrightarrow> pitchKey a = pitchKey b"
  by (simp add: pitchKey_def)

lemma scanParts_emits:
  assumes "forEach (partBody pattern) parts st t = (Inr st', t')"
    and "set parts \<subseteq> set xml"
    and "list_all (\<lambda>occ. windowOfDoc xml pattern occ \<and> matchingCount occ = length pattern)
           (exactPatternOccurrences st)"
    and "list_all (\<lambda>occ. windowOfDoc xml pattern occ \<and> matchingCount occ < length pattern \<and>
                     aboveThreshold (matchingCount occ) (length pattern))
           (approximatePatternOccurrences st)"
  shows "list_all (\<lambda>occ. windowOfDoc xml pattern occ \<and> matchingCount occ = length pattern)
           (exactPatternOccurrences st') \<and>
         list_all (\<lambda>occ. windowOfDoc xml pattern occ \<and> matchingCount occ < length pattern \<and>
                     aboveThreshold (matchingCount occ) (length pattern))
           (approximatePatternOccurrences st')"
  using assms(1)
proof (rule forEach_invariant[where P = "\<lambda>s.
         list_all (\<lambda>occ. windowOfDoc xml pattern occ \<and> matchingCount occ = length pattern)
           (exactPatternOccurrences s) \<and>
         list_all (\<lambda>occ. windowOfDoc xml pattern occ \<and> matchingCount occ < length pattern \<and>
                     aboveThreshold (matchingCount occ) (length pattern))
           (approximatePatternOccurrences s)"])
  show "list_all (\<lambda>occ. windowOfDoc xml pattern occ \<and> matchingCount occ = length pattern)
           (exactPatternOccurrences st) \<and>
         list_all (\<lambda>occ. windowOfDoc xml pattern occ \<and> matchingCount occ < length pattern \<and>
                     aboveThreshold (matchingCount occ) (length pattern))
           (approximatePatternOccurrences st)"
    using assms(3,4) by simp
next
  fix x s u s' u'
  assume x: "x \<in> set parts"
    and p: "list_all (\<lambda>occ. windowOfDoc xml pattern occ \<and> matchingCount occ = length pattern)
           (exactPatternOccurrences s) \<and>
         list_all (\<lambda>occ. windowOfDoc xml pattern occ \<and> matchingCount occ < length pattern \<and>
                     aboveThreshold (matchingCount occ) (length pattern))
           (approximatePatternOccurrences s)"
    and b: "partBody pattern x s u = (Inr s', u')"
  from partBody_emits(2)[OF b] obtain newE newA where n:
    "exactPatternOccurrences s' = exactPatternOccurrences s @ newE"
    "approximatePatternOccurrences s' = approximatePatternOccurrences s @ newA"
    "list_all (\<lambda>occ. windowIn pattern (staffCount s + 1) (lanesOf x) occ \<and>
                     matchingCount occ = length pattern) newE"
    "list_all (\<lambda>occ. windowIn pattern (staffCount s + 1) (lanesOf x) occ \<and>
                     matchingCount occ < length pattern \<and>
                     aboveThreshold (matchingCount occ) (length pattern)) newA"
    by blast
  have xin: "x \<in> set xml" using x assms(2) by auto
  have w: "\<And>occ. windowIn pattern (staffCount s + 1) (lanesOf x) occ \<Longrightarrow> windowOfDoc xml pattern occ"
    unfolding windowOfDoc_def using xin by blast
  have e: "list_all (\<lambda>occ. windowOfDoc xml pattern occ \<and> matchingCount occ = length pattern) newE"
    using n(3) w by (auto simp: list_all_iff)
  have a: "list_all (\<lambda>occ. windowOfDoc xml pattern occ \<and> matchingCount occ < length pattern \<and>
                     aboveThreshold (matchingCount occ) (length pattern)) newA"
    using n(4) w by (auto simp: list_all_iff)
  show "list_all (\<lambda>occ. windowOfDoc xml pattern occ \<and> matchingCount occ = length pattern)
           (exactPatternOccurrences s') \<and>
         list_all (\<lambda>occ. windowOfDoc xml pattern occ \<and> matchingCount occ < length pattern \<and>
                     aboveThreshold (matchingCount occ) (length pattern))
           (approximatePatternOccurrences s')"
    using p e a by (simp add: n(1,2))
qed

lemma findPattern_emits:
  assumes "findPattern xml pattern tbl = (Inr res, tbl')"
  shows "list_all (\<lambda>occ. windowOfDoc xml pattern occ \<and> matchingCount occ = length pattern)
           (exactPatternOccurrences res)"
    and "list_all (\<lambda>occ. windowOfDoc xml pattern occ \<and> matchingCount occ < length pattern \<and>
                     aboveThreshold (matchingCount occ) (length pattern))
           (approximatePatternOccurrences res)"
proof -
  from assms obtain st where
    sp: "forEach (partBody pattern) xml initialState tbl = (Inr st, tbl')"
    and res: "res = \<lparr>exactPatternOccurrences = exactPatternOccurrences st,
                approximatePatternOccurrences = approximatePatternOccurrences st\<rparr>"
    unfolding findPattern_def scanParts_def by (auto split: prod.splits sum.splits)
  have "list_all (\<lambda>occ. windowOfDoc xml pattern occ \<and> matchingCount occ = length pattern)
           (exactPatternOccurrences st) \<and>
         list_all (\<lambda>occ. windowOfDoc xml pattern occ \<and> matchingCount occ < length pattern \<and>
                     aboveThreshold (matchingCount occ) (length pattern))
           (approximatePatternOccurrences st)"
    by (rule scanParts_emits[OF sp]) (simp_all add: initialState_def)
  then show "list_all (\<lambda>occ. windowOfDoc xml pattern occ \<and> matchingCount occ = length pattern)
           (exactPatternOccurrences res)"
    and "list_all (\<lambda>occ. windowOfDoc xml pattern occ \<and> matchingCount occ < length pattern \<and>
                     aboveThreshold (matchingCount occ) (length pattern))
           (approximatePatternOccurrences res)"
    by (simp_all add: res)
qed

lemma arrayIncludesCount_full:
  "arrayIncludesCount array target cmp = length target \<Longrightarrow> v \<in> set target \<Longrightarrow> list_ex (cmp v) array"
proof (induction target)
  case Nil
  then show ?case by simp
next
  case (Cons a target)
  then show ?case by (auto split: if_splits)
qed

lemma alignLoop_in_order:
  assumes "alignLoop sc lane i j ps acc t = (Inr acc', t')"
    and "length acc' = length acc + length ps"
    and "distinct (map (\<lambda>ocn. pitchKey (occNote ocn)) acc')"
  shows "\<forall>m < length ps. pitchKey (occNote (acc' ! (length acc + m))) = pitchKey (ps ! m)"
  using assms
proof (induction ps arbitrary: j acc t)
  case Nil
  then show ?case by simp
next
  case (Cons p ps)
  have short: "\<And>u. alignLoop sc lane i (Suc j) ps acc u = (Inr acc', t') \<Longrightarrow> False"
  proof -
    fix u assume "alignLoop sc lane i (Suc j) ps acc u = (Inr acc', t')"
    from alignLoop_appends[OF this] have "length acc' \<le> length acc + length ps" by auto
    with Cons.prems(2) show False by simp
  qed
  show ?case
  proof (cases "length lane \<le> i + j \<or> \<not> isNotRest (lane ! (i + j))")
    case True
    then have "alignLoop sc lane i (Suc j) ps acc t = (Inr acc', t')"
      using Cons.prems(1) by (simp only: alignLoop_skip)
    then show ?thesis using short by blast
  next
    case False
    then have inr: "i + j < length lane" and nr: "isNotRest (lane ! (i + j))" by auto
    note unf = alignLoop_read[OF inr nr]
    from Cons.prems(1) obtain n t1 where
      gn: "getNote (element (lane ! (i + j))) t = (Inr n, t1)"
      unfolding unf by (auto split: prod.splits sum.splits)
    let ?o = "noteOccurrence sc (lane ! (i + j)) n"
    show ?thesis
    proof (cases "accepts n p (prevNoteOf acc)")
      case False
      then have "alignLoop sc lane i (Suc j) ps acc t1 = (Inr acc', t')"
        using Cons.prems(1) gn unfolding unf by simp
      then show ?thesis using short by blast
    next
      case True
      then have rec: "alignLoop sc lane i (Suc j) ps (acc @ [?o]) t1 = (Inr acc', t')"
        using Cons.prems(1) gn unfolding unf by simp
      from alignLoop_appends[OF rec] obtain new where
        new: "acc' = (acc @ [?o]) @ new" by auto
      have len: "length acc' = length (acc @ [?o]) + length ps"
        using Cons.prems(2) by simp
      from Cons.IH[OF rec len Cons.prems(3)]
      have ih: "\<forall>m<length ps. pitchKey (occNote (acc' ! (Suc (length acc) + m))) = pitchKey (ps ! m)"
        by simp
      have at: "acc' ! length acc = ?o" using new by (simp add: nth_append)
      have on: "occNote ?o = n" by (simp add: noteOccurrence_def)
      have notprev: "\<not> noteIsEqual (Some n) (prevNoteOf acc)"
      proof (cases "acc = []")
        case True
        then show ?thesis by (simp add: prevNoteOf_def)
      next
        case False
        then have l: "last acc = acc' ! (length acc - 1)"
          using new by (simp add: nth_append last_conv_nth)
        have lt: "length acc - 1 < length acc'" "length acc < length acc'"
          using new False by simp_all
        have pos: "length acc - 1 \<noteq> length acc" using False by (cases acc) simp_all
        have "map (\<lambda>ocn. pitchKey (occNote ocn)) acc' ! (length acc - 1)
                \<noteq> map (\<lambda>ocn. pitchKey (occNote ocn)) acc' ! length acc"
          using Cons.prems(3) lt pos
          by (simp add: nth_eq_iff_index_eq del: nth_map)
        then have "pitchKey (occNote (last acc)) \<noteq> pitchKey n"
          using lt l at on by simp
        then show ?thesis using False by (auto simp: prevNoteOf_def pitchKey_def)
      qed
      with True have "noteIsEqual (Some n) (Some p)" by (auto simp: accepts_def)
      then have k0: "pitchKey (occNote (acc' ! length acc)) = pitchKey p"
        using at on by (simp add: pitchKey_def)
      show ?thesis
      proof (intro allI impI)
        fix m assume m: "m < length (p # ps)"
        show "pitchKey (occNote (acc' ! (length acc + m))) = pitchKey ((p # ps) ! m)"
        proof (cases m)
          case 0
          then show ?thesis using k0 by simp
        next
          case (Suc m')
          then show ?thesis using ih m by simp
        qed
      qed
    qed
  qed
qed

lemma exact_window_in_order:
  assumes al: "alignLoop sc lane i 0 pattern [] t = (Inr acc, t')"
    and full: "countMatching acc pattern = length pattern"
    and dist: "distinct (map pitchKey pattern)"
  shows "length acc = length pattern"
    and "\<forall>j < length pattern. noteIsEqual (Some (occNote (acc ! j))) (Some (pattern ! j))"
proof -
  let ?k = "\<lambda>ocn. pitchKey (occNote ocn)"
  from alignLoop_appends[OF al] have le: "length acc \<le> length pattern" by auto
  have sub: "set (map pitchKey pattern) \<subseteq> set (map ?k acc)"
  proof
    fix x assume "x \<in> set (map pitchKey pattern)"
    then obtain p where p: "p \<in> set pattern" "x = pitchKey p" by auto
    from arrayIncludesCount_full[OF full[unfolded countMatching_def] p(1)]
    obtain ocn where "ocn \<in> set acc" "pitchKey p = pitchKey (occNote ocn)"
      by (auto simp: list_ex_iff pitchKey_def)
    then show "x \<in> set (map ?k acc)" using p(2) by force
  qed
  have "length pattern = card (set (map pitchKey pattern))"
    using distinct_card[OF dist] by simp
  also have "\<dots> \<le> card (set (map ?k acc))" by (rule card_mono[OF _ sub]) simp
  also have "\<dots> \<le> length (map ?k acc)" by (rule card_length)
  finally have ge: "length pattern \<le> length acc" by simp
  with le show len: "length acc = length pattern" by simp
  have "card (set (map ?k acc)) = length (map ?k acc)"
  proof (rule antisym)
    show "card (set (map ?k acc)) \<le> length (map ?k acc)" by (rule card_length)
    have "length (map ?k acc) = card (set (map pitchKey pattern))"
      using distinct_card[OF dist] len by simp
    also have "\<dots> \<le> card (set (map ?k acc))" by (rule card_mono[OF _ sub]) simp
    finally show "length (map ?k acc) \<le> card (set (map ?k acc))" .
  qed
  then have d: "distinct (map ?k acc)" by (rule card_distinct)
  have "\<forall>m < length pattern. pitchKey (occNote (acc ! (length ([]::NoteOccurrence list) + m))) = pitchKey (pattern ! m)"
    by (rule alignLoop_in_order[OF al _ d]) (simp add: len)
  then show "\<forall>j < length pattern. noteIsEqual (Some (occNote (acc ! j))) (Some (pattern ! j))"
    by (simp add: pitchKey_def)
qed

lemma set_update_cases:
  "x \<in> set (AList.update k v al) \<Longrightarrow> x = (k, v) \<or> x \<in> set al"
  by (induction al) (auto split: if_splits)

lemma set_map_filterD:
  "y \<in> set (List.map_filter f xs) \<Longrightarrow> \<exists>x \<in> set xs. f x = Some y"
  by (induction xs) (auto split: option.splits)

lemma set_arrayEntries: "set (arrayEntries a) \<subseteq> snd ` set a"
proof
  fix x assume "x \<in> set (arrayEntries a)"
  then obtain i where "(i, x) \<in> set (List.map_filter
          (\<lambda>(k, v). case k of None \<Rightarrow> None
             | Some i \<Rightarrow> if isArrayIndex i then Some (i, v) else None) a)"
    by (auto simp: arrayEntries_def)
  then have "(Some i, x) \<in> set a"
    by (auto dest!: set_map_filterD split: option.splits if_splits)
  then show "x \<in> snd ` set a" by force
qed

lemma allRefsI:
  "(k, sv) \<in> set sn \<Longrightarrow> (k', lane) \<in> set sv \<Longrightarrow> r \<in> set lane \<Longrightarrow> r \<in> allRefs sn"
  unfolding allRefs_def by force

lemma allRefs_addStaveNote: "allRefs (addStaveNote n sn) \<subseteq> insert n (allRefs sn)"
proof
  fix r assume "r \<in> allRefs (addStaveNote n sn)"
  then obtain k sv k' lane where
    m: "(k, sv) \<in> set (addStaveNote n sn)" "(k', lane) \<in> set sv" "r \<in> set lane"
    unfolding allRefs_def by auto
  let ?sk = "minusOne (getUniqueInteger (staffElems (element n)))"
  let ?vk = "minusOne (getUniqueInteger (voiceElems (element n)))"
  show "r \<in> insert n (allRefs sn)"
  proof (cases "map_of sn ?sk")
    case None
    then have "addStaveNote n sn = AList.update ?sk [(?vk, [n])] sn"
      by (simp add: addStaveNote_def Let_def)
    with m(1) have "(k, sv) \<in> set (AList.update ?sk [(?vk, [n])] sn)" by simp
    then have "(k, sv) = (?sk, [(?vk, [n])]) \<or> (k, sv) \<in> set sn"
      by (rule set_update_cases)
    then show ?thesis
    proof
      assume "(k, sv) = (?sk, [(?vk, [n])])"
      then show ?thesis using m(2,3) by auto
    next
      assume "(k, sv) \<in> set sn"
      then have "r \<in> allRefs sn" using m(2,3) by (rule allRefsI)
      then show ?thesis by simp
    qed
  next
    case (Some staffNotes)
    then have sin: "(?sk, staffNotes) \<in> set sn" by (rule map_of_SomeD)
    show ?thesis
    proof (cases "map_of staffNotes ?vk")
      case None
      then have "addStaveNote n sn = sn" using Some by (simp add: addStaveNote_def Let_def)
      then have "(k, sv) \<in> set sn" using m(1) by simp
      then have "r \<in> allRefs sn" using m(2,3) by (rule allRefsI)
      then show ?thesis by simp
    next
      case (Some l)
      then have lin: "(?vk, l) \<in> set staffNotes" by (rule map_of_SomeD)
      have "addStaveNote n sn = AList.update ?sk (AList.update ?vk (l @ [n]) staffNotes) sn"
        using Some \<open>map_of sn ?sk = Some staffNotes\<close> by (simp add: addStaveNote_def Let_def)
      with m(1) have "(k, sv) \<in> set (AList.update ?sk (AList.update ?vk (l @ [n]) staffNotes) sn)"
        by simp
      then have "(k, sv) = (?sk, AList.update ?vk (l @ [n]) staffNotes) \<or> (k, sv) \<in> set sn"
        by (rule set_update_cases)
      then show ?thesis
      proof
        assume "(k, sv) \<in> set sn"
        then have "r \<in> allRefs sn" using m(2,3) by (rule allRefsI)
        then show ?thesis by simp
      next
        assume "(k, sv) = (?sk, AList.update ?vk (l @ [n]) staffNotes)"
        then have "(k', lane) \<in> set (AList.update ?vk (l @ [n]) staffNotes)" using m(2) by simp
        then have "(k', lane) = (?vk, l @ [n]) \<or> (k', lane) \<in> set staffNotes"
          by (rule set_update_cases)
        then show ?thesis
        proof
          assume "(k', lane) = (?vk, l @ [n])"
          then have "r = n \<or> r \<in> set l" using m(3) by auto
          then show ?thesis
          proof
            assume "r \<in> set l"
            with sin lin have "r \<in> allRefs sn" by (rule allRefsI)
            then show ?thesis by simp
          qed simp
        next
          assume "(k', lane) \<in> set staffNotes"
          with sin have "r \<in> allRefs sn" using m(3) by (rule allRefsI)
          then show ?thesis by simp
        qed
      qed
    qed
  qed
qed

lemma allRefs_foldl:
  "allRefs (foldl (\<lambda>staveNotes noteElement. addStaveNote noteElement staveNotes) sn ns)
     \<subseteq> set ns \<union> allRefs sn"
proof (induction ns arbitrary: sn)
  case Nil
  then show ?case by simp
next
  case (Cons n ns)
  have "allRefs (foldl (\<lambda>staveNotes noteElement. addStaveNote noteElement staveNotes) (addStaveNote n sn) ns)
          \<subseteq> set ns \<union> allRefs (addStaveNote n sn)"
    by (rule Cons.IH)
  also have "\<dots> \<subseteq> set ns \<union> insert n (allRefs sn)"
    using allRefs_addStaveNote[of n sn] by auto
  finally show ?case by auto
qed

lemma allRefs_buildStaveNotes:
  "allRefs (buildStaveNotes partElement) \<subseteq> set (partNotes partElement)"
proof (cases "partStaffCount partElement > 1")
  case True
  have "allRefs (foldl (\<lambda>staveNotes noteElement. addStaveNote noteElement staveNotes) []
          (filter isNotRest (partNotes partElement)))
        \<subseteq> set (filter isNotRest (partNotes partElement)) \<union> allRefs []"
    by (rule allRefs_foldl)
  then show ?thesis using True by (auto simp: buildStaveNotes_def allRefs_def)
next
  case False
  then show ?thesis by (simp add: buildStaveNotes_def allRefs_def)
qed

lemma lanesOf_partNotes:
  assumes "lane \<in> set (lanesOf partElement)"
  shows "set lane \<subseteq> set (partNotes partElement)"
proof
  fix r assume r: "r \<in> set lane"
  from assms obtain sv where sv: "sv \<in> set (arrayEntries (buildStaveNotes partElement))"
    and l: "lane \<in> set (arrayEntries sv)"
    unfolding lanesOf_def by auto
  have "sv \<in> snd ` set (buildStaveNotes partElement)"
    by (rule subsetD[OF set_arrayEntries sv])
  then obtain k where k: "(k, sv) \<in> set (buildStaveNotes partElement)" by auto
  have "lane \<in> snd ` set sv" by (rule subsetD[OF set_arrayEntries l])
  then obtain k' where k': "(k', lane) \<in> set sv" by auto
  have "r \<in> allRefs (buildStaveNotes partElement)" by (rule allRefsI[OF k k' r])
  then show "r \<in> set (partNotes partElement)"
    by (rule subsetD[OF allRefs_buildStaveNotes])
qed

lemma partNotes_wellformed:
  assumes "noteRef \<in> set (partNotes partElement)"
  shows "parentElement noteRef \<in> set (measureElems partElement)"
    and "siblingIndex noteRef < length (noteElems (parentElement noteRef))"
    and "element noteRef = noteElems (parentElement noteRef) ! siblingIndex noteRef"
proof -
  from assms obtain m where m: "m \<in> set (measureElems partElement)" "noteRef \<in> set (measureNotes m)"
    by (auto simp: partNotes_def)
  then obtain i e where ie: "(i, e) \<in> set (enumerate 0 (noteElems m))"
    "noteRef = \<lparr>parentElement = m, siblingIndex = i, element = e\<rparr>"
    by (auto simp: measureNotes_def)
  then have "i < length (noteElems m)" "e = noteElems m ! i"
    by (auto simp: in_set_enumerate_eq)
  then show "parentElement noteRef \<in> set (measureElems partElement)"
    and "siblingIndex noteRef < length (noteElems (parentElement noteRef))"
    and "element noteRef = noteElems (parentElement noteRef) ! siblingIndex noteRef"
    using ie(2) m(1) by simp_all
qed

lemma indexOf_enumerate_filter:
  assumes "i < length xs" and "P (xs ! i)"
  shows "indexOf (map fst (filter (\<lambda>(k, e). P e) (enumerate n xs))) (n + i)
           = int (length (filter P (take i xs)))"
  using assms
proof (induction xs arbitrary: n i)
  case Nil
  then show ?case by simp
next
  case (Cons x xs)
  show ?case
  proof (cases i)
    case 0
    then show ?thesis using Cons.prems by simp
  next
    case (Suc i')
    then have i': "i' < length xs" "P (xs ! i')" using Cons.prems by simp_all
    have ih: "indexOf (map fst (filter (\<lambda>(k, e). P e) (enumerate (Suc n) xs))) (Suc n + i')
           = int (length (filter P (take i' xs)))"
      by (rule Cons.IH[OF i'])
    show ?thesis using ih Suc by (simp add: Let_def)
  qed
qed

lemma getElementIndex_rank:
  assumes "siblingIndex noteRef < length (noteElems (parentElement noteRef))"
    and "voiceFilter v (noteElems (parentElement noteRef) ! siblingIndex noteRef)"
  shows "getElementIndex noteRef v =
           int (length (filter (voiceFilter v)
                  (take (siblingIndex noteRef) (noteElems (parentElement noteRef)))))"
  unfolding getElementIndex_def
  using indexOf_enumerate_filter[OF assms(1), of "voiceFilter v" 0, OF assms(2)] by simp

section \<open>Exact occurrences\<close>

text \<open>
  Claim C1, as the code has it. An occurrence is exact when \<^const>\<open>countMatching\<close> reaches
  the length of the pattern, that is when every entry of the pattern is pitch-equal to some
  accumulated note. So an exact occurrence has at most \<open>k\<close> notes and covers every entry of
  the pattern; when the pitches of the pattern are pairwise distinct under \<^const>\<open>noteIsEqual\<close>
  it has exactly \<open>k\<close> notes and its \<open>j\<close>-th note is pitch-equal to the \<open>j\<close>-th entry.
\<close>

theorem exact_occurrence_notes:
  assumes "findPattern xml pattern tbl = (Inr res, tbl')"
    and "occ \<in> set (exactPatternOccurrences res)"
  shows "length (occNotes occ) \<le> length pattern \<and>
         (\<forall>p \<in> set pattern. \<exists>ocn \<in> set (occNotes occ). noteIsEqual (Some p) (Some (occNote ocn))) \<and>
         (distinct (map pitchKey pattern) \<longrightarrow>
            length (occNotes occ) = length pattern \<and>
            (\<forall>j < length pattern.
               noteIsEqual (Some (occNote (occNotes occ ! j))) (Some (pattern ! j))))"
proof -
  from findPattern_emits(1)[OF assms(1)] assms(2)
  have w: "windowOfDoc xml pattern occ" and full: "matchingCount occ = length pattern"
    by (auto simp: list_all_iff)
  from w obtain sc lane i t t' where
    al: "alignLoop sc lane i 0 pattern [] t = (Inr (occNotes occ), t')"
    and mc: "matchingCount occ = countMatching (occNotes occ) pattern"
    unfolding windowOfDoc_def windowIn_def by blast
  have cm: "countMatching (occNotes occ) pattern = length pattern" using mc full by simp
  from alignLoop_appends[OF al] have le: "length (occNotes occ) \<le> length pattern" by auto
  have cov: "\<forall>p \<in> set pattern. \<exists>ocn \<in> set (occNotes occ). noteIsEqual (Some p) (Some (occNote ocn))"
  proof
    fix p assume "p \<in> set pattern"
    from arrayIncludesCount_full[OF cm[unfolded countMatching_def] this]
    show "\<exists>ocn \<in> set (occNotes occ). noteIsEqual (Some p) (Some (occNote ocn))"
      by (simp add: list_ex_iff)
  qed
  have ord: "distinct (map pitchKey pattern) \<longrightarrow>
            length (occNotes occ) = length pattern \<and>
            (\<forall>j < length pattern.
               noteIsEqual (Some (occNote (occNotes occ ! j))) (Some (pattern ! j)))"
    using exact_window_in_order[OF al cm] by blast
  from le cov ord show ?thesis by blast
qed

text \<open>
  Witness for C1: three notes B flat, A, C in one voice and the pattern B flat, A, C.
\<close>

theorem exact_occurrence_notes_witness:
  "\<exists>res tbl' occ.
     findPattern plainScore plainPattern [] = (Inr res, tbl') \<and>
     occ \<in> set (exactPatternOccurrences res) \<and>
     distinct (map pitchKey plainPattern) \<and>
     length (occNotes occ) = 3 \<and>
     noteIsEqual (Some (occNote (occNotes occ ! 0))) (Some (plainPattern ! 0)) \<and>
     noteIsEqual (Some (occNote (occNotes occ ! 1))) (Some (plainPattern ! 1)) \<and>
     noteIsEqual (Some (occNote (occNotes occ ! 2))) (Some (plainPattern ! 2))"
proof -
  let ?r = "findPattern plainScore plainPattern []"
  have ok: "\<not> isl (fst ?r)" by code_simp
  then have ev: "?r = (Inr (projr (fst ?r)), snd ?r)"
    by (cases "fst ?r") (simp_all add: prod_eq_iff)
  have ne: "exactPatternOccurrences (projr (fst ?r)) \<noteq> []" by code_simp
  then have mem: "hd (exactPatternOccurrences (projr (fst ?r))) \<in> set (exactPatternOccurrences (projr (fst ?r)))"
    by simp
  have d: "distinct (map pitchKey plainPattern)" by code_simp
  have l: "length plainPattern = 3" by code_simp
  from exact_occurrence_notes[OF ev mem] d l
  have "length (occNotes (hd (exactPatternOccurrences (projr (fst ?r))))) = 3 \<and>
     noteIsEqual (Some (occNote (occNotes (hd (exactPatternOccurrences (projr (fst ?r)))) ! 0))) (Some (plainPattern ! 0)) \<and>
     noteIsEqual (Some (occNote (occNotes (hd (exactPatternOccurrences (projr (fst ?r)))) ! 1))) (Some (plainPattern ! 1)) \<and>
     noteIsEqual (Some (occNote (occNotes (hd (exactPatternOccurrences (projr (fst ?r)))) ! 2))) (Some (plainPattern ! 2))"
    by simp
  with ev mem d show ?thesis by blast
qed

text \<open>
  Counterexample to C1 as stated: one part with the single note A and the pattern A, A.
  The window at the note accumulates the note for the first entry and finds no second note;
  both entries of the pattern are pitch-equal to the one accumulated note, so the count is 2,
  the length of the pattern, and the occurrence is emitted as exact with one note.
\<close>

theorem exact_occurrence_notes_counterexample:
  "fst (findPattern repeatedScore repeatedPattern []) =
     Inr \<lparr>exactPatternOccurrences =
            [\<lparr>occNotes =
                [\<lparr>occStaff = 1, occMeasure = 1, measureNoteNumber = 1,
                  occNote = \<lparr>step = Some ''A'', alter = None, octave = Some 4,
                             staff = 1, voice = 1, staffVoice = 1\<rparr>\<rparr>],
              matchingCount = 2, occurenceNumber = 1\<rparr>],
          approximatePatternOccurrences = []\<rparr> \<and>
   length repeatedPattern = 2"
  by code_simp

section \<open>The matching count\<close>

lemma arrayIncludesCount_le_filter:
  "arrayIncludesCount array target cmp \<le> length (filter (\<lambda>v. list_ex (cmp v) array) target)"
  by (induction target) auto

lemma arrayIncludesCount_prefix:
  assumes "list_all (\<lambda>v. list_ex (cmp v) array) (take m target)"
    and "\<not> list_ex (\<lambda>v. list_ex (cmp v) array) (drop m target)"
  shows "arrayIncludesCount array target cmp = length (filter (\<lambda>v. list_ex (cmp v) array) target)"
  using assms
proof (induction target arbitrary: m)
  case Nil
  then show ?case by simp
next
  case (Cons v target)
  show ?case
  proof (cases "list_ex (cmp v) array")
    case True
    then obtain m' where m: "m = Suc m'" using Cons.prems(2) by (cases m) auto
    have "arrayIncludesCount array target cmp = length (filter (\<lambda>v. list_ex (cmp v) array) target)"
      by (rule Cons.IH[of m']) (use Cons.prems m in auto)
    then show ?thesis using True by simp
  next
    case False
    then have m: "m = 0" using Cons.prems(1) by (cases m) auto
    then have "\<not> list_ex (\<lambda>v. list_ex (cmp v) array) target" using Cons.prems(2) by simp
    then have "filter (\<lambda>v. list_ex (cmp v) array) target = []"
      by (simp add: list_ex_iff filter_empty_conv)
    then show ?thesis using False by simp
  qed
qed

lemma coveredBy_cmp:
  "list_ex (\<lambda>s. noteIsEqual (Some v) (Some s)) (map occNote acc) = coveredBy acc v"
  by (simp add: coveredBy_def list_ex_iff)

lemma countMatching_coveredBy:
  "countMatching acc pattern =
     arrayIncludesCount (map occNote acc) pattern (\<lambda>v s. noteIsEqual (Some v) (Some s))"
  by (simp add: countMatching_def)

text \<open>
  Claim C2, as the code has it. The count stored in an emitted occurrence is
  \<^const>\<open>countMatching\<close> of the occurrence's own notes. It counts entries of the pattern, not
  accumulated notes, and one note may cover several entries: it never exceeds the number of
  covered entries, and it is that number whenever the covered entries are an initial segment
  of the pattern (so it is \<open>k\<close> exactly when every entry is covered).
\<close>

theorem matchingCount_covered_entries:
  assumes "findPattern xml pattern tbl = (Inr res, tbl')"
    and "occ \<in> set (exactPatternOccurrences res) \<union> set (approximatePatternOccurrences res)"
  shows "matchingCount occ = countMatching (occNotes occ) pattern \<and>
         matchingCount occ \<le> length (filter (coveredBy (occNotes occ)) pattern) \<and>
         ((\<exists>m. list_all (coveredBy (occNotes occ)) (take m pattern) \<and>
               \<not> list_ex (coveredBy (occNotes occ)) (drop m pattern)) \<longrightarrow>
            matchingCount occ = length (filter (coveredBy (occNotes occ)) pattern))"
proof -
  from findPattern_emits[OF assms(1)] assms(2)
  have "windowOfDoc xml pattern occ" by (auto simp: list_all_iff)
  then have mc: "matchingCount occ = countMatching (occNotes occ) pattern"
    unfolding windowOfDoc_def windowIn_def by blast
  let ?cmp = "\<lambda>v s. noteIsEqual (Some v) (Some s)"
  have cov: "(\<lambda>v. list_ex (?cmp v) (map occNote (occNotes occ))) = coveredBy (occNotes occ)"
    by (rule ext) (rule coveredBy_cmp)
  have le: "matchingCount occ \<le> length (filter (coveredBy (occNotes occ)) pattern)"
    using arrayIncludesCount_le_filter[of "map occNote (occNotes occ)" pattern ?cmp]
    unfolding cov mc countMatching_coveredBy .
  have pre: "(\<exists>m. list_all (coveredBy (occNotes occ)) (take m pattern) \<and>
               \<not> list_ex (coveredBy (occNotes occ)) (drop m pattern)) \<longrightarrow>
            matchingCount occ = length (filter (coveredBy (occNotes occ)) pattern)"
  proof
    assume "\<exists>m. list_all (coveredBy (occNotes occ)) (take m pattern) \<and>
               \<not> list_ex (coveredBy (occNotes occ)) (drop m pattern)"
    then obtain m where m: "list_all (coveredBy (occNotes occ)) (take m pattern)"
      "\<not> list_ex (coveredBy (occNotes occ)) (drop m pattern)" by blast
    show "matchingCount occ = length (filter (coveredBy (occNotes occ)) pattern)"
      using arrayIncludesCount_prefix[of ?cmp "map occNote (occNotes occ)" m pattern] m
      unfolding cov mc countMatching_coveredBy by simp
  qed
  from mc le pre show ?thesis by blast
qed

text \<open>
  Witness for C2: the notes B flat, A, C, E against the pattern B flat, A, C, B. The first
  three entries are covered, the fourth is not, and the count is 3.
\<close>

theorem matchingCount_covered_entries_witness:
  "\<exists>res tbl' occ.
     findPattern nearScore nearPattern [] = (Inr res, tbl') \<and>
     occ \<in> set (exactPatternOccurrences res) \<union> set (approximatePatternOccurrences res) \<and>
     list_all (coveredBy (occNotes occ)) (take 3 nearPattern) \<and>
     \<not> list_ex (coveredBy (occNotes occ)) (drop 3 nearPattern) \<and>
     matchingCount occ = length (filter (coveredBy (occNotes occ)) nearPattern) \<and>
     matchingCount occ = 3"
proof -
  let ?r = "findPattern nearScore nearPattern []"
  let ?o = "hd (approximatePatternOccurrences (projr (fst ?r)))"
  have ok: "\<not> isl (fst ?r)" by code_simp
  then have ev: "?r = (Inr (projr (fst ?r)), snd ?r)"
    by (cases "fst ?r") (simp_all add: prod_eq_iff)
  have ne: "approximatePatternOccurrences (projr (fst ?r)) \<noteq> []" by code_simp
  then have mem: "?o \<in> set (exactPatternOccurrences (projr (fst ?r))) \<union>
                       set (approximatePatternOccurrences (projr (fst ?r)))" by simp
  have c1: "list_all (coveredBy (occNotes ?o)) (take 3 nearPattern)" by code_simp
  have c2: "\<not> list_ex (coveredBy (occNotes ?o)) (drop 3 nearPattern)" by code_simp
  have m: "matchingCount ?o = 3" by code_simp
  from matchingCount_covered_entries[OF ev mem] c1 c2
  have "matchingCount ?o = length (filter (coveredBy (occNotes ?o)) nearPattern)" by blast
  with ev mem c1 c2 m show ?thesis by blast
qed

text \<open>
  Counterexample to C2 as stated: the pattern A, A on a lane that holds one A. The single
  accumulated note covers both entries, so the code counts 2; a one-to-one coverage of the
  accumulated notes counts 1.
\<close>

theorem matchingCount_greedy_counterexample:
  "fst (findPattern repeatedScore repeatedPattern []) =
     Inr \<lparr>exactPatternOccurrences =
            [\<lparr>occNotes =
                [\<lparr>occStaff = 1, occMeasure = 1, measureNoteNumber = 1,
                  occNote = \<lparr>step = Some ''A'', alter = None, octave = Some 4,
                             staff = 1, voice = 1, staffVoice = 1\<rparr>\<rparr>],
              matchingCount = 2, occurenceNumber = 1\<rparr>],
          approximatePatternOccurrences = []\<rparr> \<and>
   specMatchedCount
     [\<lparr>step = Some ''A'', alter = None, octave = Some 4, staff = 1, voice = 1, staffVoice = 1\<rparr>]
     repeatedPattern = 1"
  by code_simp

section \<open>Approximate occurrences\<close>

text \<open>
  Claim C3: for every approximate occurrence the count \<open>m\<close> stored in it, which is the count
  the classification used, satisfies \<open>0 < m < k\<close> and \<open>m / k > 0.6\<close>.
\<close>

theorem approximate_occurrence_bounds:
  assumes "findPattern xml pattern tbl = (Inr res, tbl')"
    and "occ \<in> set (approximatePatternOccurrences res)"
  shows "matchingCount occ = countMatching (occNotes occ) pattern \<and>
         0 < matchingCount occ \<and> matchingCount occ < length pattern \<and>
         6 / 10 < real (matchingCount occ) / real (length pattern)"
proof -
  from findPattern_emits(2)[OF assms(1)] assms(2)
  have w: "windowOfDoc xml pattern occ" and lt: "matchingCount occ < length pattern"
    and th: "aboveThreshold (matchingCount occ) (length pattern)"
    by (auto simp: list_all_iff)
  from w have mc: "matchingCount occ = countMatching (occNotes occ) pattern"
    unfolding windowOfDoc_def windowIn_def by blast
  have ineq: "3 * length pattern < 5 * matchingCount occ" using th by (simp add: aboveThreshold_def)
  then have pos: "0 < matchingCount occ" by simp
  have "0 < length pattern" using lt by arith
  then have kpos: "0 < real (length pattern)" by (simp only: of_nat_0_less_iff)
  have "6 * real (length pattern) < 10 * real (matchingCount occ)"
  proof -
    have "real (3 * length pattern) < real (5 * matchingCount occ)"
      using ineq by (simp only: of_nat_less_iff)
    then show ?thesis by simp
  qed
  then have "6 / 10 < real (matchingCount occ) / real (length pattern)"
    using kpos by (simp add: field_simps)
  with mc pos lt show ?thesis by blast
qed

text \<open>
  Witness for C3: the notes B flat, A, C, E against the pattern B flat, A, C, B give one
  approximate occurrence with count 3 of 4.
\<close>

theorem approximate_occurrence_bounds_witness:
  "\<exists>res tbl' occ.
     findPattern nearScore nearPattern [] = (Inr res, tbl') \<and>
     occ \<in> set (approximatePatternOccurrences res) \<and>
     matchingCount occ = 3 \<and> length nearPattern = 4 \<and>
     0 < matchingCount occ \<and> matchingCount occ < length nearPattern \<and>
     6 / 10 < real (matchingCount occ) / real (length nearPattern)"
proof -
  let ?r = "findPattern nearScore nearPattern []"
  let ?o = "hd (approximatePatternOccurrences (projr (fst ?r)))"
  have ok: "\<not> isl (fst ?r)" by code_simp
  then have ev: "?r = (Inr (projr (fst ?r)), snd ?r)"
    by (cases "fst ?r") (simp_all add: prod_eq_iff)
  have ne: "approximatePatternOccurrences (projr (fst ?r)) \<noteq> []" by code_simp
  then have mem: "?o \<in> set (approximatePatternOccurrences (projr (fst ?r)))" by simp
  have m: "matchingCount ?o = 3" by code_simp
  have l: "length nearPattern = 4" by code_simp
  from approximate_occurrence_bounds[OF ev mem]
  have "0 < matchingCount ?o \<and> matchingCount ?o < length nearPattern \<and>
     6 / 10 < real (matchingCount ?o) / real (length nearPattern)" by blast
  with ev mem m l show ?thesis by blast
qed

section \<open>Inputs the specification calls invalid\<close>

lemma keys_sortAllVoices: "map fst (sortAllVoices t) = map fst t"
  unfolding sortAllVoices_def by (induction t) (auto split: option.splits)

lemma key_registerVoice: "k \<in> fst ` set (registerVoice k v t)"
proof (cases "map_of t k")
  case None
  then show ?thesis by (simp add: registerVoice_def dom_update)
next
  case (Some vs)
  then have "(k, vs) \<in> set t" by (rule map_of_SomeD)
  then have "k \<in> fst ` set t" by force
  then show ?thesis using Some by (simp add: registerVoice_def dom_update)
qed

lemma getNote_succeeds:
  assumes "length (pitchElems e) = 1"
  shows "\<exists>n t'. getNote e t = (Inr n, t')"
proof -
  let ?k = "minusOne (getUniqueInteger (staffElems e))"
  let ?t = "sortAllVoices (registerVoice ?k (getUniqueInteger (voiceElems e)) t)"
  from assms obtain p where p: "pitchElems e = [p]"
    by (cases "pitchElems e") auto
  have "fst ` set ?t = set (map fst ?t)" by simp
  also have "\<dots> = fst ` set (registerVoice ?k (getUniqueInteger (voiceElems e)) t)"
    by (simp only: keys_sortAllVoices set_map)
  finally have "?k \<in> fst ` set ?t" using key_registerVoice by simp
  then have "map_of ?t ?k \<noteq> None" by (simp only: map_of_eq_None_iff not_not)
  then obtain vs where "map_of ?t ?k = Some vs" by blast
  then show ?thesis using p by (simp add: getNote_def Let_def)
qed

lemma alignLoop_succeeds:
  assumes "\<forall>r \<in> set lane. isNotRest r \<longrightarrow> length (pitchElems (element r)) = 1"
  shows "\<exists>acc' t'. alignLoop sc lane i j ps acc t = (Inr acc', t')"
proof (induction ps arbitrary: j acc t)
  case Nil
  then show ?case by simp
next
  case (Cons p ps)
  show ?case
  proof (cases "length lane \<le> i + j \<or> \<not> isNotRest (lane ! (i + j))")
    case True
    then show ?thesis using Cons.IH by (simp only: alignLoop_skip)
  next
    case False
    then have inr: "i + j < length lane" and nr: "isNotRest (lane ! (i + j))" by auto
    then have "length (pitchElems (element (lane ! (i + j)))) = 1"
      using assms nth_mem by blast
    from getNote_succeeds[OF this] obtain n t1 where
      gn: "getNote (element (lane ! (i + j))) t = (Inr n, t1)" by blast
    show ?thesis
      unfolding alignLoop_read[OF inr nr] gn using Cons.IH by simp
  qed
qed

lemma windowBody_succeeds:
  assumes "\<forall>r \<in> set lane. isNotRest r \<longrightarrow> length (pitchElems (element r)) = 1"
  shows "\<exists>st' t'. windowBody pattern lane i st t = (Inr st', t')"
proof -
  from alignLoop_succeeds[OF assms] obtain acc t' where
    "alignLoop (staffCount st) lane i 0 pattern [] t = (Inr acc, t')" by blast
  then show ?thesis by (simp add: windowBody_def)
qed

lemma lanesOf_member:
  "sv \<in> set (arrayEntries (buildStaveNotes partElement)) \<Longrightarrow> lane \<in> set (arrayEntries sv)
     \<Longrightarrow> lane \<in> set (lanesOf partElement)"
  unfolding lanesOf_def by auto

lemma partBody_succeeds:
  assumes "\<forall>r \<in> set (partNotes partElement). isNotRest r \<longrightarrow> length (pitchElems (element r)) = 1"
  shows "\<exists>st' t'. partBody pattern partElement st t = (Inr st', t')"
  unfolding partBody_def
proof (rule forEach_succeeds)
  fix sv s u assume sv: "sv \<in> set (arrayEntries (buildStaveNotes partElement))"
  show "\<exists>s' t'. staffBody pattern sv s u = (Inr s', t')"
    unfolding staffBody_def
  proof (rule forEach_succeeds)
    fix lane s1 u1 assume l: "lane \<in> set (arrayEntries sv)"
    have sub: "set lane \<subseteq> set (partNotes partElement)"
      by (rule lanesOf_partNotes[OF lanesOf_member[OF sv l]])
    have ok: "\<forall>r \<in> set lane. isNotRest r \<longrightarrow> length (pitchElems (element r)) = 1"
      using assms sub by blast
    show "\<exists>s' t'. laneBody pattern lane s1 u1 = (Inr s', t')"
      unfolding laneBody_def
      by (rule forEach_succeeds) (rule windowBody_succeeds[OF ok])
  qed
qed

text \<open>
  Claim C8, as the code has it. The source has no check of the score: a part without notes
  runs no window, and a pitch element without step is read as a note whose step is undefined.
  \<^const>\<open>findPattern\<close> returns normally for every score in which each note that is no rest
  has exactly one pitch element, whatever the parts and steps are.
\<close>

theorem findPattern_succeeds:
  assumes "\<forall>partElement \<in> set xml. \<forall>noteRef \<in> set (partNotes partElement).
             isNotRest noteRef \<longrightarrow> length (pitchElems (element noteRef)) = 1"
  shows "\<exists>res tbl'. findPattern xml pattern tbl = (Inr res, tbl')"
proof -
  have "\<exists>st t'. forEach (partBody pattern) xml initialState tbl = (Inr st, t')"
  proof (rule forEach_succeeds)
    fix x s u assume "x \<in> set xml"
    then have "\<forall>r \<in> set (partNotes x). isNotRest r \<longrightarrow> length (pitchElems (element r)) = 1"
      using assms by blast
    then show "\<exists>s' t'. partBody pattern x s u = (Inr s', t')" by (rule partBody_succeeds)
  qed
  then show ?thesis by (auto simp: findPattern_def scanParts_def)
qed

text \<open>
  Witness for C8: the score whose first part has no note and whose second part has a pitch
  without step satisfies the hypothesis, and \<^const>\<open>findPattern\<close> returns.
\<close>

theorem findPattern_succeeds_witness:
  "partNotes (malformedScore ! 0) = [] \<and>
   map (\<lambda>noteRef. map stepElems (pitchElems (element noteRef))) (partNotes (malformedScore ! 1))
     = [[[]], [[''A'']]] \<and>
   (\<exists>res tbl'. findPattern malformedScore [patternNote ''A'' None] [] = (Inr res, tbl'))"
proof -
  have h: "\<forall>partElement \<in> set malformedScore. \<forall>noteRef \<in> set (partNotes partElement).
             isNotRest noteRef \<longrightarrow> length (pitchElems (element noteRef)) = 1"
    by code_simp
  have a: "partNotes (malformedScore ! 0) = []" by code_simp
  have b: "map (\<lambda>noteRef. map stepElems (pitchElems (element noteRef))) (partNotes (malformedScore ! 1))
     = [[[]], [[''A'']]]" by code_simp
  from findPattern_succeeds[OF h] a b show ?thesis by blast
qed

text \<open>
  Counterexample to C8 as stated: on that score, with the pattern A, \<^const>\<open>findPattern\<close>
  does not fail; it returns the exact occurrence of the A of the second part.
\<close>

theorem findPattern_malformed_counterexample:
  "findPattern malformedScore [patternNote ''A'' None] [] =
     (Inr \<lparr>exactPatternOccurrences =
             [\<lparr>occNotes =
                 [\<lparr>occStaff = 2, occMeasure = 1, measureNoteNumber = 2,
                   occNote = \<lparr>step = Some ''A'', alter = None, octave = Some 4,
                              staff = 1, voice = 1, staffVoice = 1\<rparr>\<rparr>],
               matchingCount = 1, occurenceNumber = 1\<rparr>],
           approximatePatternOccurrences = []\<rparr>,
      [(None, [Some 1])])"
  by code_simp

lemma forEach_accumulate:
  assumes step: "\<And>x s. x \<in> set xs \<Longrightarrow> \<exists>s'. f x s t = (Inr s', t) \<and> Q (w x) s s'"
    and refl: "\<And>s. Q 0 s s"
    and trans: "\<And>a b s s1 s2. Q a s s1 \<Longrightarrow> Q b s1 s2 \<Longrightarrow> Q (a + b) s s2"
  shows "\<exists>s'. forEach f xs s t = (Inr s', t) \<and> Q (sum_list (map w xs)) s s'"
  using step
proof (induction xs arbitrary: s)
  case Nil
  then show ?case using refl by simp
next
  case (Cons x xs)
  from Cons.prems[of x s] obtain s1 where s1: "f x s t = (Inr s1, t)" "Q (w x) s s1" by auto
  have "\<exists>s'. forEach f xs s1 t = (Inr s', t) \<and> Q (sum_list (map w xs)) s1 s'"
    by (rule Cons.IH) (use Cons.prems in auto)
  then obtain s' where s': "forEach f xs s1 t = (Inr s', t)" "Q (sum_list (map w xs)) s1 s'"
    by blast
  have "Q (w x + sum_list (map w xs)) s s'" by (rule trans[OF s1(2) s'(2)])
  then show ?case using s1(1) s'(1) by simp
qed

lemma emptyEmits_refl: "emptyEmits 0 s s"
  by (simp add: emptyEmits_def)

lemma emptyEmits_trans:
  assumes "emptyEmits a s s1" and "emptyEmits b s1 s2"
  shows "emptyEmits (a + b) s s2"
proof -
  from assms(1) obtain n1 where 1: "exactPatternOccurrences s1 = exactPatternOccurrences s @ n1"
    "length n1 = a" "list_all (\<lambda>occ. occNotes occ = [] \<and> matchingCount occ = 0) n1"
    "approximatePatternOccurrences s1 = approximatePatternOccurrences s"
    unfolding emptyEmits_def by blast
  from assms(2) obtain n2 where 2: "exactPatternOccurrences s2 = exactPatternOccurrences s1 @ n2"
    "length n2 = b" "list_all (\<lambda>occ. occNotes occ = [] \<and> matchingCount occ = 0) n2"
    "approximatePatternOccurrences s2 = approximatePatternOccurrences s1"
    unfolding emptyEmits_def by blast
  show ?thesis unfolding emptyEmits_def
    by (rule exI[of _ "n1 @ n2"]) (simp add: 1 2)
qed

lemma windowBody_empty:
  "\<exists>s'. windowBody [] lane i s t = (Inr s', t) \<and> emptyEmits 1 s s'"
  by (simp add: windowBody_def classify_def countMatching_def emptyEmits_def)

lemma sum_list_ones: "sum_list (map (\<lambda>_. Suc 0) xs) = length xs"
  by (induction xs) auto

lemma sum_list_lanes:
  "sum_list (map (\<lambda>sv. sum_list (map f (g sv))) svs) = sum_list (map f (concat (map g svs)))"
  by (induction svs) auto

lemma laneBody_empty:
  "\<exists>s'. laneBody [] lane s t = (Inr s', t) \<and> emptyEmits (length (windowStarts lane)) s s'"
proof -
  have "\<exists>s'. forEach (windowBody [] lane) (windowStarts lane) s t = (Inr s', t) \<and>
          emptyEmits (sum_list (map (\<lambda>_. 1) (windowStarts lane))) s s'"
    by (rule forEach_accumulate[where Q = emptyEmits and w = "\<lambda>_. 1"])
      (rule windowBody_empty, rule emptyEmits_refl, rule emptyEmits_trans)
  then show ?thesis by (simp add: laneBody_def sum_list_ones)
qed

lemma staffBody_empty:
  "\<exists>s'. staffBody [] sv s t = (Inr s', t) \<and>
     emptyEmits (sum_list (map (\<lambda>lane. length (windowStarts lane)) (arrayEntries sv))) s s'"
  unfolding staffBody_def
  by (rule forEach_accumulate[where Q = emptyEmits])
    (rule laneBody_empty, rule emptyEmits_refl, rule emptyEmits_trans)

lemma partBody_empty:
  "\<exists>s'. partBody [] partElement s t = (Inr s', t) \<and>
     emptyEmits (sum_list (map (\<lambda>lane. length (windowStarts lane)) (lanesOf partElement))) s s'"
proof -
  let ?s1 = "s\<lparr>staffCount := staffCount s + 1\<rparr>"
  let ?w = "\<lambda>sv. sum_list (map (\<lambda>lane. length (windowStarts lane)) (arrayEntries sv))"
  have "\<exists>s'. forEach (staffBody []) (arrayEntries (buildStaveNotes partElement)) ?s1 t = (Inr s', t) \<and>
          emptyEmits (sum_list (map ?w (arrayEntries (buildStaveNotes partElement)))) ?s1 s'"
    by (rule forEach_accumulate[where Q = emptyEmits])
      (rule staffBody_empty, rule emptyEmits_refl, rule emptyEmits_trans)
  then obtain s' where s': "partBody [] partElement s t = (Inr s', t)"
    "emptyEmits (sum_list (map ?w (arrayEntries (buildStaveNotes partElement)))) ?s1 s'"
    by (auto simp: partBody_def)
  have eq: "sum_list (map ?w (arrayEntries (buildStaveNotes partElement)))
          = sum_list (map (\<lambda>lane. length (windowStarts lane)) (lanesOf partElement))"
    by (simp only: lanesOf_def sum_list_lanes)
  have "emptyEmits (sum_list (map (\<lambda>lane. length (windowStarts lane)) (lanesOf partElement))) s s'"
    using s'(2) unfolding eq emptyEmits_def by simp
  with s'(1) show ?thesis by blast
qed

text \<open>
  Claim C7, as the code has it. The source does not reject an empty pattern. The loop over the
  pattern runs no step, the count is 0 and equals the length of the pattern, so every window
  start emits an exact occurrence without notes; no approximate occurrence is emitted, nothing
  is thrown and the voice table is not touched.
\<close>

theorem findPattern_empty_pattern:
  "\<exists>exact. findPattern xml [] tbl =
       (Inr \<lparr>exactPatternOccurrences = exact, approximatePatternOccurrences = []\<rparr>, tbl) \<and>
     list_all (\<lambda>occ. occNotes occ = [] \<and> matchingCount occ = 0) exact \<and>
     length exact = windowCount xml"
proof -
  have "\<exists>s'. forEach (partBody []) xml initialState tbl = (Inr s', tbl) \<and>
          emptyEmits (sum_list (map (\<lambda>partElement.
             sum_list (map (\<lambda>lane. length (windowStarts lane)) (lanesOf partElement))) xml))
            initialState s'"
    by (rule forEach_accumulate[where Q = emptyEmits])
      (rule partBody_empty, rule emptyEmits_refl, rule emptyEmits_trans)
  then obtain s' where s': "forEach (partBody []) xml initialState tbl = (Inr s', tbl)"
    "emptyEmits (windowCount xml) initialState s'"
    by (auto simp: windowCount_def)
  from s'(2) obtain new where n: "exactPatternOccurrences s' = new" "length new = windowCount xml"
    "list_all (\<lambda>occ. occNotes occ = [] \<and> matchingCount occ = 0) new"
    "approximatePatternOccurrences s' = []"
    unfolding emptyEmits_def by (auto simp: initialState_def)
  show ?thesis
    by (rule exI[of _ new]) (simp add: findPattern_def scanParts_def s'(1) n)
qed

text \<open>
  Witness for C7: a part with three notes has three window starts and gives three exact
  occurrences for the empty pattern.
\<close>

theorem findPattern_empty_pattern_witness:
  "windowCount plainScore = 3 \<and>
   (\<exists>exact. findPattern plainScore [] [] =
       (Inr \<lparr>exactPatternOccurrences = exact, approximatePatternOccurrences = []\<rparr>, []) \<and>
     list_all (\<lambda>occ. occNotes occ = [] \<and> matchingCount occ = 0) exact \<and>
     length exact = 3)"
proof -
  have w: "windowCount plainScore = 3" by code_simp
  from findPattern_empty_pattern[of plainScore "[]"] w show ?thesis by simp
qed

text \<open>
  Counterexample to C7 as stated: for a part with one note and the empty pattern,
  \<^const>\<open>findPattern\<close> returns one exact occurrence instead of failing.
\<close>

theorem findPattern_empty_pattern_counterexample:
  "findPattern repeatedScore [] [] =
     (Inr \<lparr>exactPatternOccurrences =
             [\<lparr>occNotes = [], matchingCount = 0, occurenceNumber = 1\<rparr>],
           approximatePatternOccurrences = []\<rparr>, [])"
  by code_simp

section \<open>Positions in the measure\<close>

lemma getNote_voice:
  assumes "getNote e t = (Inr n, t')"
  shows "voice n = orDefault (getUniqueInteger (voiceElems e)) 1"
  using assms by (auto simp: getNote_def Let_def split: option.splits)

lemma windowOfDoc_notes:
  assumes "windowOfDoc xml pattern occ" and "ocn \<in> set (occNotes occ)"
  shows "\<exists>partElement noteRef sc n t t'. partElement \<in> set xml \<and>
           noteRef \<in> set (partNotes partElement) \<and> isNotRest noteRef \<and>
           getNote (element noteRef) t = (Inr n, t') \<and> ocn = noteOccurrence sc noteRef n"
proof -
  from assms(1) obtain partElement sc lane i t t' where
    p: "partElement \<in> set xml" and l: "lane \<in> set (lanesOf partElement)"
    and al: "alignLoop sc lane i 0 pattern [] t = (Inr (occNotes occ), t')"
    unfolding windowOfDoc_def windowIn_def by blast
  from alignLoop_appends[OF al] have "list_all (fromLane sc lane) (occNotes occ)" by auto
  then have "fromLane sc lane ocn" using assms(2) by (simp add: list_all_iff)
  then obtain noteRef n u u' where r: "noteRef \<in> set lane" "isNotRest noteRef"
    "getNote (element noteRef) u = (Inr n, u')" "ocn = noteOccurrence sc noteRef n"
    unfolding fromLane_def by blast
  have "noteRef \<in> set (partNotes partElement)"
    using lanesOf_partNotes[OF l] r(1) by blast
  with p r show ?thesis by blast
qed

text \<open>
  Claim C9, as the code has it. Every note of an emitted occurrence comes from a note of the
  score that is no rest; the measure is the number of its measure, and the position reported
  is \<^const>\<open>getElementIndex\<close> plus one. For a note that declares exactly one voice element,
  with a value \<open>v\<close> other than 0, this is one more than the number of siblings before it in
  the measure, notes and rests alike, whose first voice element reads \<open>v\<close>: the rank is
  1-based, rests of the voice are counted and the notes of other voices are not.
\<close>

theorem measureNoteNumber_rank:
  assumes "findPattern xml pattern tbl = (Inr res, tbl')"
    and "occ \<in> set (exactPatternOccurrences res) \<union> set (approximatePatternOccurrences res)"
    and "ocn \<in> set (occNotes occ)"
  shows "\<exists>partElement noteRef t t'.
           partElement \<in> set xml \<and> noteRef \<in> set (partNotes partElement) \<and>
           isNotRest noteRef \<and> getNote (element noteRef) t = (Inr (occNote ocn), t') \<and>
           occMeasure ocn = numberAttr (parentElement noteRef) \<and>
           measureNoteNumber ocn = getElementIndex noteRef (voice (occNote ocn)) + 1 \<and>
           (\<forall>v. voiceElems (element noteRef) = [v] \<and> v \<noteq> 0 \<longrightarrow>
              measureNoteNumber ocn =
                1 + int (length (filter (voiceFilter v)
                           (take (siblingIndex noteRef) (noteElems (parentElement noteRef))))))"
proof -
  from findPattern_emits[OF assms(1)] assms(2)
  have "windowOfDoc xml pattern occ" by (auto simp: list_all_iff)
  from windowOfDoc_notes[OF this assms(3)] obtain partElement noteRef sc n t t' where
    p: "partElement \<in> set xml" and r: "noteRef \<in> set (partNotes partElement)"
    and nr: "isNotRest noteRef" and gn: "getNote (element noteRef) t = (Inr n, t')"
    and o: "ocn = noteOccurrence sc noteRef n"
    by blast
  have on: "occNote ocn = n" and om: "occMeasure ocn = numberAttr (parentElement noteRef)"
    and mn: "measureNoteNumber ocn = getElementIndex noteRef (voice (occNote ocn)) + 1"
    using o by (simp_all add: noteOccurrence_def)
  have rank: "\<forall>v. voiceElems (element noteRef) = [v] \<and> v \<noteq> 0 \<longrightarrow>
              measureNoteNumber ocn =
                1 + int (length (filter (voiceFilter v)
                           (take (siblingIndex noteRef) (noteElems (parentElement noteRef)))))"
  proof (intro allI impI)
    fix v assume v: "voiceElems (element noteRef) = [v] \<and> v \<noteq> 0"
    have vn: "voice n = v" using getNote_voice[OF gn] v by (simp add: getUniqueInteger_def)
    have i: "siblingIndex noteRef < length (noteElems (parentElement noteRef))"
      and e: "element noteRef = noteElems (parentElement noteRef) ! siblingIndex noteRef"
      using partNotes_wellformed[OF r] by simp_all
    have "voiceFilter v (element noteRef)" using v by (simp add: voiceFilter_def)
    then have f: "voiceFilter v (noteElems (parentElement noteRef) ! siblingIndex noteRef)"
      using e by simp
    show "measureNoteNumber ocn =
            1 + int (length (filter (voiceFilter v)
                      (take (siblingIndex noteRef) (noteElems (parentElement noteRef)))))"
      using getElementIndex_rank[OF i f] mn on vn by simp
  qed
  from p r nr gn on om mn rank show ?thesis by blast
qed

text \<open>
  Witness for C9: in a measure with a rest of voice 1, a note of voice 2, the A of voice 1
  and a last note, the A is reported at position 2.
\<close>

theorem measureNoteNumber_rank_witness:
  "\<exists>res tbl' occ ocn.
     findPattern rankScore [patternNote ''A'' None] [] = (Inr res, tbl') \<and>
     occ \<in> set (exactPatternOccurrences res) \<union> set (approximatePatternOccurrences res) \<and>
     ocn \<in> set (occNotes occ) \<and> measureNoteNumber ocn = 2 \<and>
     (\<exists>partElement noteRef t t'.
           partElement \<in> set rankScore \<and> noteRef \<in> set (partNotes partElement) \<and>
           isNotRest noteRef \<and> getNote (element noteRef) t = (Inr (occNote ocn), t') \<and>
           (\<forall>v. voiceElems (element noteRef) = [v] \<and> v \<noteq> 0 \<longrightarrow>
              measureNoteNumber ocn =
                1 + int (length (filter (voiceFilter v)
                           (take (siblingIndex noteRef) (noteElems (parentElement noteRef)))))))"
proof -
  let ?r = "findPattern rankScore [patternNote ''A'' None] []"
  let ?occ = "hd (exactPatternOccurrences (projr (fst ?r)))"
  let ?ocn = "hd (occNotes ?occ)"
  have ok: "\<not> isl (fst ?r)" by code_simp
  then have ev: "?r = (Inr (projr (fst ?r)), snd ?r)"
    by (cases "fst ?r") (simp_all add: prod_eq_iff)
  have ne: "exactPatternOccurrences (projr (fst ?r)) \<noteq> []" by code_simp
  then have mem: "?occ \<in> set (exactPatternOccurrences (projr (fst ?r))) \<union>
                    set (approximatePatternOccurrences (projr (fst ?r)))" by simp
  have ne2: "occNotes ?occ \<noteq> []" by code_simp
  then have mem2: "?ocn \<in> set (occNotes ?occ)" by simp
  have two: "measureNoteNumber ?ocn = 2" by code_simp
  from measureNoteNumber_rank[OF ev mem mem2]
  have "\<exists>partElement noteRef t t'.
           partElement \<in> set rankScore \<and> noteRef \<in> set (partNotes partElement) \<and>
           isNotRest noteRef \<and> getNote (element noteRef) t = (Inr (occNote ?ocn), t') \<and>
           (\<forall>v. voiceElems (element noteRef) = [v] \<and> v \<noteq> 0 \<longrightarrow>
              measureNoteNumber ?ocn =
                1 + int (length (filter (voiceFilter v)
                           (take (siblingIndex noteRef) (noteElems (parentElement noteRef))))))"
    by blast
  with ev mem mem2 two show ?thesis by blast
qed

text \<open>
  Counterexample to C9 as stated: the only note of a measure has 0-based rank 0 among the
  notes of its voice, and the position reported for it is 1.
\<close>

theorem measureNoteNumber_zero_based_counterexample:
  "fst (findPattern repeatedScore [patternNote ''A'' None] []) =
     Inr \<lparr>exactPatternOccurrences =
            [\<lparr>occNotes =
                [\<lparr>occStaff = 1, occMeasure = 1, measureNoteNumber = 1,
                  occNote = \<lparr>step = Some ''A'', alter = None, octave = Some 4,
                             staff = 1, voice = 1, staffVoice = 1\<rparr>\<rparr>],
              matchingCount = 1, occurenceNumber = 1\<rparr>],
          approximatePatternOccurrences = []\<rparr> \<and>
   map specPositionInMeasure (concat (map partNotes repeatedScore)) = [0]"
  by code_simp

section \<open>Staff coordinates\<close>











section \<open>Rests in the lanes\<close>

text \<open>
  The two ways in which \<^const>\<open>buildStaveNotes\<close> arranges a part differ on rests. A part that
  declares more than one staff is filtered before its notes are distributed, so that none of
  its lanes holds a rest. Any other part becomes one lane that holds all its notes, rests
  included.
\<close>

lemma staff_lanes_without_rests:
  assumes "partStaffCount partElement > 1" and "lane \<in> set (lanesOf partElement)"
  shows "list_all isNotRest lane"
proof -
  have "allRefs (foldl (\<lambda>staveNotes noteElement. addStaveNote noteElement staveNotes) []
          (filter isNotRest (partNotes partElement)))
        \<subseteq> set (filter isNotRest (partNotes partElement)) \<union> allRefs []"
    by (rule allRefs_foldl)
  then have sub: "allRefs (buildStaveNotes partElement) \<subseteq> {r. isNotRest r}"
    using assms(1) by (auto simp: buildStaveNotes_def allRefs_def)
  from assms(2) obtain sv where sv: "sv \<in> set (arrayEntries (buildStaveNotes partElement))"
    and l: "lane \<in> set (arrayEntries sv)"
    unfolding lanesOf_def by auto
  have "sv \<in> snd ` set (buildStaveNotes partElement)"
    by (rule subsetD[OF set_arrayEntries sv])
  then obtain k where k: "(k, sv) \<in> set (buildStaveNotes partElement)" by auto
  have "lane \<in> snd ` set sv" by (rule subsetD[OF set_arrayEntries l])
  then obtain k' where k': "(k', lane) \<in> set sv" by auto
  show ?thesis
    unfolding list_all_iff
  proof
    fix r assume "r \<in> set lane"
    then have "r \<in> allRefs (buildStaveNotes partElement)" by (rule allRefsI[OF k k'])
    then show "isNotRest r" using sub by blast
  qed
qed

lemma single_lane_keeps_rests:
  assumes "\<not> partStaffCount partElement > 1"
  shows "lanesOf partElement = [partNotes partElement]"
  using assms
  by (simp add: lanesOf_def buildStaveNotes_def arrayEntries_def isArrayIndex_def)

text \<open>
  Claim C4 at a part without staff declaration that starts with two rests followed by A and
  B, for the pattern A, B. The lane keeps the rests; the window starts are 0 and 1, the
  indices of the filtered copy, and they are read in the unfiltered lane. The window at 0
  meets the two rests, each of which uses up one entry of the pattern, and calls
  \<^const>\<open>getNote\<close> for no note; no window starts at the A. Nothing is found, although the
  notes of the lane that are no rests are exactly the pattern.
\<close>

theorem rests_occupy_window_slots:
  "lanesOf (restScore ! 0) = [partNotes (restScore ! 0)] \<and>
   map isNotRest (partNotes (restScore ! 0)) = [False, False, True, True] \<and>
   windowStarts (partNotes (restScore ! 0)) = [0, 1] \<and>
   alignLoop 1 (partNotes (restScore ! 0)) 0 0 abPattern [] [] = (Inr [], []) \<and>
   fst (findPattern restScore abPattern []) =
     Inr \<lparr>exactPatternOccurrences = [], approximatePatternOccurrences = []\<rparr>"
  by code_simp

text \<open>The same notes in a part that declares two staves: the rests are gone and A, B is found.\<close>

lemma rests_removed_with_two_staves:
  "map (map isNotRest) (lanesOf (twoStaffRestScore ! 0)) = [[True, True]] \<and>
   (\<exists>res tbl'. findPattern twoStaffRestScore abPattern [] = (Inr res, tbl') \<and>
      stepsOf res = [[Some ''A'', Some ''B'']])"
proof -
  let ?r = "findPattern twoStaffRestScore abPattern []"
  have "map (map isNotRest) (lanesOf (twoStaffRestScore ! 0)) = [[True, True]]" by code_simp
  moreover have "?r = (Inr (projr (fst ?r)), snd ?r) \<and> stepsOf (projr (fst ?r)) = [[Some ''A'', Some ''B'']]"
    by code_simp
  ultimately show ?thesis by blast
qed

section \<open>The partition into lanes\<close>

text \<open>
  Claim C5 at a part that declares two staves and has two notes on staff 1, of voice 1 and of
  voice 2. The first note opens staff 1 with the lane of voice 1. For the second note the
  staff has an entry and the voice has none, the case for which \<^const>\<open>addStaveNote\<close> has no
  branch: the note is in no lane, and only the first one is found.
\<close>

theorem second_voice_dropped:
  "map siblingIndex (filter isNotRest (partNotes (droppedScore ! 0))) = [0, 1] \<and>
   buildStaveNotes (droppedScore ! 0) = [(Some 0, [(Some 0, [partNotes (droppedScore ! 0) ! 0])])] \<and>
   map (map siblingIndex) (lanesOf (droppedScore ! 0)) = [[0]] \<and>
   findPattern droppedScore [patternNote ''A'' None] [] =
     (Inr \<lparr>exactPatternOccurrences =
             [\<lparr>occNotes =
                 [\<lparr>occStaff = 1, occMeasure = 1, measureNoteNumber = 1,
                   occNote = \<lparr>step = Some ''A'', alter = None, octave = Some 4,
                              staff = 1, voice = 1, staffVoice = 1\<rparr>\<rparr>],
               matchingCount = 1, occurenceNumber = 1\<rparr>],
           approximatePatternOccurrences = []\<rparr>,
      [(Some 0, [Some 1])])"
  by code_simp

section \<open>The voice table across calls\<close>

text \<open>
  Claim C6 at a part with two notes on staff 1, of voice 2 and then of voice 1, for the
  pattern A. A first call from the empty table leaves the table of staff 1 at the voices 1
  and 2 and reports the first note with staff voice 1, the only voice known when it was read.
  A second call on the same score and pattern starts from the table the first one left and
  reports the same note with staff voice 2.
\<close>

theorem voice_table_leaks:
  "\<exists>first second tbl'.
     findPattern tableScore [patternNote ''A'' None] [] = (Inr first, [(Some 0, [Some 1, Some 2])]) \<and>
     findPattern tableScore [patternNote ''A'' None] [(Some 0, [Some 1, Some 2])] = (Inr second, tbl') \<and>
     staffVoicesOf first = [[1], [1]] \<and>
     staffVoicesOf second = [[2], [1]] \<and>
     first \<noteq> second"
proof -
  let ?p = "[patternNote ''A'' None]"
  let ?a = "findPattern tableScore ?p []"
  let ?b = "findPattern tableScore ?p [(Some 0, [Some 1, Some 2])]"
  have "?a = (Inr (projr (fst ?a)), [(Some 0, [Some 1, Some 2])]) \<and>
        ?b = (Inr (projr (fst ?b)), snd ?b) \<and>
        staffVoicesOf (projr (fst ?a)) = [[1], [1]] \<and>
        staffVoicesOf (projr (fst ?b)) = [[2], [1]] \<and>
        projr (fst ?a) \<noteq> projr (fst ?b)"
    by code_simp
  then show ?thesis by blast
qed

end
